theory Spec2Isabelle
  imports Complex_Main "HOL-Library.Word" "HOL-Library.Multiset"
begin

unbundle bit_operations_syntax

section \<open>Screen streamer: data model\<close>

text \<open>
  The program is one Python file, \<^verbatim>\<open>run.py\<close>. Its pixel pipeline
  (\<^verbatim>\<open>capture_and_process_frame\<close>) calls three libraries: the screen grabber
  (\<^verbatim>\<open>mss\<close>), the imaging library (\<^verbatim>\<open>PIL\<close>) and \<^verbatim>\<open>numpy\<close>.
  Its session handler (\<^verbatim>\<open>handler\<close>) runs the pipeline in an unbounded loop and
  pushes each result over a websocket.

  Bytes are 8-bit words, the packed pixels 16-bit words.
\<close>

type_synonym uint8 = "8 word"
type_synonym uint16 = "16 word"
type_synonym rgb = "uint8 \<times> uint8 \<times> uint8"

text \<open>Configuration constants of \<^verbatim>\<open>run.py\<close>, lines 24 to 27.\<close>

definition DISPLAY_WIDTH :: nat where
  "DISPLAY_WIDTH = 410"

definition DISPLAY_HEIGHT :: nat where
  "DISPLAY_HEIGHT = 502"

definition WEBSOCKET_PORT :: nat where
  "WEBSOCKET_PORT = 81"

definition TARGET_FPS :: nat where
  "TARGET_FPS = 20"

text \<open>
  Python exceptions, by what the two \<^verbatim>\<open>except\<close> clauses of the handler can tell
  apart: \<^verbatim>\<open>websockets.exceptions.ConnectionClosed\<close>; any other class deriving from
  \<^verbatim>\<open>Exception\<close>, carried with its class name (\<^verbatim>\<open>ValueError\<close> of the imaging
  library, \<^verbatim>\<open>ScreenShotError\<close> of the grabber, \<^verbatim>\<open>IndexError\<close>, ...); and the
  two classes that derive from \<^verbatim>\<open>BaseException\<close> only and are raised by an interrupt
  or an exit request.
\<close>

datatype exn = ConnectionClosed | Exception string | KeyboardInterrupt | SystemExit

text \<open>\<^verbatim>\<open>isinstance(e, Exception)\<close>: \<^verbatim>\<open>ConnectionClosed\<close> is a subclass of
  \<^verbatim>\<open>Exception\<close>.\<close>

fun is_Exception :: "exn \<Rightarrow> bool" where
  "is_Exception ConnectionClosed = True"
| "is_Exception (Exception c) = True"
| "is_Exception KeyboardInterrupt = False"
| "is_Exception SystemExit = False"

text \<open>
  What \<^verbatim>\<open>sct.grab(monitor)\<close> returns: the two attributes the pipeline reads,
  \<^verbatim>\<open>sct_img.size\<close> (width, height) and \<^verbatim>\<open>sct_img.bgra\<close> (the raw bytes).
\<close>

record screenshot =
  shot_size :: "nat \<times> nat"
  bgra :: "uint8 list"

text \<open>An image of mode \<^verbatim>\<open>RGB\<close>: its size and its pixels, row by row.\<close>

record image =
  width :: nat
  height :: nat
  pixels :: "rgb list"

text \<open>
  The host of the process fixes what the source leaves to its platform: the byte order of
  \<^verbatim>\<open>tobytes()\<close> (numpy writes native order) and the resampling filter of
  \<^verbatim>\<open>resize\<close> (floating-point interpolation inside the imaging library), taken as the
  function giving the pixel at column \<open>x\<close>, row \<open>y\<close> of the resized image from the
  source image and the target size.
\<close>

datatype byteorder = little | big

record host =
  sys_byteorder :: byteorder
  resample :: "image \<Rightarrow> nat \<Rightarrow> nat \<Rightarrow> nat \<Rightarrow> nat \<Rightarrow> rgb"

section \<open>The pixel pipeline\<close>

text \<open>
  \<^verbatim>\<open>Image.frombytes("RGB", size, data, "raw", "BGRX")\<close>. The raw decoder reads four
  bytes per pixel, blue, green, red and a pad byte, and stores red, green, blue. It reads
  \<open>width * height\<close> pixels and ignores what follows; with fewer bytes it raises
  \<^verbatim>\<open>ValueError\<close> (not enough image data). An image with a zero dimension is
  created without decoding anything.
\<close>

fun unpack_BGRX :: "uint8 list \<Rightarrow> rgb list" where
  "unpack_BGRX (b # g # r # x # rest) = (r, g, b) # unpack_BGRX rest"
| "unpack_BGRX _ = []"

definition frombytes :: "nat \<times> nat \<Rightarrow> uint8 list \<Rightarrow> exn + image" where
  "frombytes sz data =
     (case sz of (w, h) \<Rightarrow>
        if w = 0 \<or> h = 0 then Inr \<lparr>width = w, height = h, pixels = []\<rparr>
        else if length data < 4 * (w * h) then Inl (Exception ''ValueError'')
        else Inr \<lparr>width = w, height = h, pixels = take (w * h) (unpack_BGRX data)\<rparr>)"

text \<open>The pixel at column \<open>x\<close>, row \<open>y\<close>.\<close>

definition getpixel :: "image \<Rightarrow> nat \<Rightarrow> nat \<Rightarrow> rgb" where
  "getpixel im x y = pixels im ! (y * width im + x)"

text \<open>
  \<^verbatim>\<open>img.rotate(90, expand=True)\<close>: a quarter turn counter-clockwise. With
  \<^verbatim>\<open>expand\<close> the library takes its transposition path: the output has the input's
  height as width and its width as height, and input pixel \<open>(x, y)\<close> lands in output row
  \<open>width - 1 - x\<close>, column \<open>y\<close>.
\<close>

definition rotate90 :: "image \<Rightarrow> image" where
  "rotate90 im =
     \<lparr>width = height im, height = width im,
      pixels = concat (map (\<lambda>yr. map (\<lambda>xr. getpixel im (width im - 1 - yr) xr) [0..<height im])
                       [0..<width im])\<rparr>"

text \<open>\<^verbatim>\<open>img.resize((w, h))\<close>: an image of exactly the requested size, each pixel
  given by the host's filter.\<close>

definition resize :: "host \<Rightarrow> image \<Rightarrow> nat \<times> nat \<Rightarrow> image" where
  "resize hst im sz =
     (case sz of (w, h) \<Rightarrow>
        \<lparr>width = w, height = h,
         pixels = concat (map (\<lambda>y. map (\<lambda>x. resample hst im w h x y) [0..<w]) [0..<h])\<rparr>)"

text \<open>
  Line 97, on one pixel: the three channels are cast to \<^verbatim>\<open>uint16\<close>
  (\<^verbatim>\<open>astype(np.uint16)\<close>) and combined with 16-bit operations.
\<close>

definition pack565 :: "uint8 \<Rightarrow> uint8 \<Rightarrow> uint8 \<Rightarrow> uint16" where
  "pack565 r g b =
     push_bit 8 ((ucast r :: uint16) AND 0xF8) OR push_bit 3 ((ucast g :: uint16) AND 0xFC)
       OR drop_bit 3 (ucast b :: uint16)"

definition rgb565 :: "rgb \<Rightarrow> uint16" where
  "rgb565 p = (case p of (r, g, b) \<Rightarrow> pack565 r g b)"

text \<open>\<^verbatim>\<open>tobytes()\<close> of one 16-bit element, in the host's byte order.\<close>

definition word_bytes :: "byteorder \<Rightarrow> uint16 \<Rightarrow> uint8 list" where
  "word_bytes bo v =
     (case bo of
        little \<Rightarrow> [ucast v, ucast (drop_bit 8 v)]
      | big \<Rightarrow> [ucast (drop_bit 8 v), ucast v])"

definition tobytes :: "byteorder \<Rightarrow> uint16 list \<Rightarrow> uint8 list" where
  "tobytes bo vs = concat (map (word_bytes bo) vs)"

text \<open>
  \<^verbatim>\<open>capture_and_process_frame(sct)\<close>. Its argument here is the outcome of lines 70
  and 71, \<^verbatim>\<open>sct.grab(sct.monitors[1])\<close>: an exception of the grabber, or a screenshot.
  The function has no check of its own and raises nothing itself: it fails exactly when
  a library call fails.
\<close>

definition capture_and_process_frame :: "host \<Rightarrow> exn + screenshot \<Rightarrow> exn + uint8 list" where
  "capture_and_process_frame hst grabbed =
     (case grabbed of
        Inl e \<Rightarrow> Inl e
      | Inr sct_img \<Rightarrow>
          (case frombytes (shot_size sct_img) (bgra sct_img) of
             Inl e \<Rightarrow> Inl e
           | Inr img \<Rightarrow>
               let img_rotated = rotate90 img;
                   img_resized = resize hst img_rotated (DISPLAY_WIDTH, DISPLAY_HEIGHT)
               in Inr (tobytes (sys_byteorder hst) (map rgb565 (pixels img_resized)))))"

text \<open>A raw frame as the grabber delivers it: non-zero size, four bytes per pixel.\<close>

definition valid_frame :: "screenshot \<Rightarrow> bool" where
  "valid_frame s =
     (case shot_size s of (w, h) \<Rightarrow> 0 < w \<and> 0 < h \<and> length (bgra s) = 4 * (w * h))"

section \<open>The session handler\<close>

text \<open>
  What one connection's session meets: whether \<^verbatim>\<open>mss()\<close> can be opened, and for
  the \<open>i\<close>-th turn of the loop (counted from 0) the outcome of the grab, of
  \<^verbatim>\<open>await websocket.send\<close> and of \<^verbatim>\<open>await asyncio.sleep\<close>
  (\<open>None\<close>: the call returns; \<open>Some e\<close>: it raises \<open>e\<close>).
\<close>

record env =
  mss_open :: "exn option"
  grab :: "nat \<Rightarrow> exn + screenshot"
  send :: "nat \<Rightarrow> exn option"
  sleep :: "nat \<Rightarrow> exn option"

text \<open>What a session does, in order. \<open>Send\<close> is a frame delivered whole to the peer;
  a send that raises delivers nothing.\<close>

datatype event =
    Print_connected
  | Mss_enter
  | Grab
  | Send "uint8 list"
  | Send_raised
  | Sleep rat
  | Sleep_raised
  | Print_disconnected
  | Print_unexpected
  | Print_closed
  | Mss_exit

text \<open>One turn of the loop, lines 110 to 113: the exception it raises, if any, and what it
  did.\<close>

definition iteration :: "host \<Rightarrow> env \<Rightarrow> nat \<Rightarrow> exn option \<times> event list" where
  "iteration hst cx i =
     (case capture_and_process_frame hst (grab cx i) of
        Inl e \<Rightarrow> (Some e, [Grab])
      | Inr frame_data \<Rightarrow>
          (case send cx i of
             Some e \<Rightarrow> (Some e, [Grab, Send_raised])
           | None \<Rightarrow>
               (case sleep cx i of
                  Some e \<Rightarrow> (Some e, [Grab, Send frame_data, Sleep_raised])
                | None \<Rightarrow> (None, [Grab, Send frame_data, Sleep (1 / of_nat TARGET_FPS)]))))"

text \<open>
  \<^verbatim>\<open>while True\<close>, line 109: the loop ends only by an exception. It returns that
  exception and everything done so far; a loop that runs forever has no result.
\<close>

partial_function (option) stream_loop ::
    "host \<Rightarrow> env \<Rightarrow> nat \<Rightarrow> event list \<Rightarrow> (exn \<times> event list) option" where
  "stream_loop hst cx i acc =
     (case iteration hst cx i of
        (Some e, evs) \<Rightarrow> Some (e, acc @ evs)
      | (None, evs) \<Rightarrow> stream_loop hst cx (Suc i) (acc @ evs))"

text \<open>The outcome of a session: what it did, and the exception that leaves the handler,
  if any.\<close>

record session =
  trace :: "event list"
  raised :: "exn option"

text \<open>
  \<^verbatim>\<open>handler(websocket)\<close>, lines 103 to 119. \<^verbatim>\<open>mss()\<close> is opened outside the
  \<^verbatim>\<open>try\<close>, so its failure leaves the handler. Inside, the first clause takes
  \<^verbatim>\<open>ConnectionClosed\<close>, the second every other instance of \<^verbatim>\<open>Exception\<close>;
  anything else passes both. \<^verbatim>\<open>finally\<close> prints, then the \<^verbatim>\<open>with\<close> block
  closes the grabber, on every path.
\<close>

definition handler :: "host \<Rightarrow> env \<Rightarrow> session option" where
  "handler hst cx =
     (case mss_open cx of
        Some e \<Rightarrow> Some \<lparr>trace = [Print_connected], raised = Some e\<rparr>
      | None \<Rightarrow>
          (case stream_loop hst cx 0 [Print_connected, Mss_enter] of
             None \<Rightarrow> None
           | Some (e, tr) \<Rightarrow>
               if e = ConnectionClosed then
                 Some \<lparr>trace = tr @ [Print_disconnected, Print_closed, Mss_exit], raised = None\<rparr>
               else if is_Exception e then
                 Some \<lparr>trace = tr @ [Print_unexpected, Print_closed, Mss_exit], raised = None\<rparr>
               else
                 Some \<lparr>trace = tr @ [Print_closed, Mss_exit], raised = Some e\<rparr>))"

text \<open>
  \<^verbatim>\<open>websockets.serve(handler, ...)\<close>, line 137, over the connections that arrive, in
  order. The library runs the handler once per accepted connection, in a task of its own,
  and goes on accepting whether that task still runs, has returned, or has raised an
  \<^verbatim>\<open>Exception\<close> (the library logs it). \<^verbatim>\<open>KeyboardInterrupt\<close> or
  \<^verbatim>\<open>SystemExit\<close> leaving a task stops the event loop, and \<^verbatim>\<open>asyncio.run\<close>
  with it (lines 152 to 155): no later connection is served.
\<close>

fun serve :: "host \<Rightarrow> env list \<Rightarrow> session option list" where
  "serve hst [] = []"
| "serve hst (cx # rest) =
     (case handler hst cx of
        None \<Rightarrow> None # serve hst rest
      | Some s \<Rightarrow>
          if raised s = Some KeyboardInterrupt \<or> raised s = Some SystemExit then [Some s]
          else Some s # serve hst rest)"

section \<open>Reading a trace\<close>

text \<open>The frames delivered to the peer, in order.\<close>

fun frames_sent :: "event list \<Rightarrow> uint8 list list" where
  "frames_sent [] = []"
| "frames_sent (Send f # tr) = f # frames_sent tr"
| "frames_sent (_ # tr) = frames_sent tr"

text \<open>The number of captures attempted.\<close>

definition grabs :: "event list \<Rightarrow> nat" where
  "grabs tr = length (filter (\<lambda>a. a = Grab) tr)"

text \<open>The grabber was opened and its closing is the last thing the session did.\<close>

definition released :: "event list \<Rightarrow> bool" where
  "released tr = (Mss_enter \<in> set tr \<and> tr \<noteq> [] \<and> last tr = Mss_exit)"

text \<open>
  Time, for the rate of a session: every action takes some time that is not negative, and
  \<^verbatim>\<open>asyncio.sleep(d)\<close> takes at least \<open>d\<close>. \<open>elapsed\<close> adds the durations of a
  trace.
\<close>

definition timing :: "(event \<Rightarrow> rat) \<Rightarrow> bool" where
  "timing dur = (\<forall>a. 0 \<le> dur a \<and> (case a of Sleep d \<Rightarrow> d \<le> dur a | _ \<Rightarrow> True))"

definition elapsed :: "(event \<Rightarrow> rat) \<Rightarrow> event list \<Rightarrow> rat" where
  "elapsed dur tr = sum_list (map dur tr)"

text \<open>What \<open>n\<close> turns of the loop do, from turn \<open>i\<close> on, one after the other.\<close>

definition turns :: "host \<Rightarrow> env \<Rightarrow> nat \<Rightarrow> nat \<Rightarrow> event list" where
  "turns hst cx i n = concat (map (\<lambda>j. snd (iteration hst cx j)) [i..<i + n])"

text \<open>A loop that has ended: from turn \<open>i\<close> on some turns completed, the next one raised;
  the result is that exception and everything done.\<close>

definition first_failure :: "host \<Rightarrow> env \<Rightarrow> nat \<Rightarrow> event list \<Rightarrow> exn \<times> event list \<Rightarrow> bool" where
  "first_failure hst cx i acc r =
     (\<exists>n. (\<forall>j<n. fst (iteration hst cx (i + j)) = None) \<and>
          fst (iteration hst cx (i + n)) = Some (fst r) \<and>
          snd r = acc @ turns hst cx i n @ snd (iteration hst cx (i + n)))"

text \<open>
  A frame as the receiver reads it: consecutive byte pairs as 16-bit words in the given
  byte order (what \<^verbatim>\<open>np.frombuffer(buf, dtype=np.uint16)\<close> gives on the sending host).
\<close>

fun frombuffer :: "byteorder \<Rightarrow> uint8 list \<Rightarrow> uint16 list" where
  "frombuffer bo (a # b # rest) =
     (case bo of
        little \<Rightarrow> push_bit 8 (ucast b) OR ucast a
      | big \<Rightarrow> push_bit 8 (ucast a) OR ucast b) # frombuffer bo rest"
| "frombuffer bo _ = []"

text \<open>
  A session that takes the server down: the exception leaving its handler is
  \<^verbatim>\<open>KeyboardInterrupt\<close> or \<^verbatim>\<open>SystemExit\<close>. A session that still runs, has returned or
  has raised an \<^verbatim>\<open>Exception\<close> does not.
\<close>

definition killed :: "host \<Rightarrow> env \<Rightarrow> bool" where
  "killed hst cx =
     (case handler hst cx of
        None \<Rightarrow> False
      | Some s \<Rightarrow> raised s = Some KeyboardInterrupt \<or> raised s = Some SystemExit)"

section \<open>Inputs to run the model on\<close>

text \<open>A little-endian host whose filter takes the nearest source pixel (black when the
  source is empty).\<close>

definition nearest :: "image \<Rightarrow> nat \<Rightarrow> nat \<Rightarrow> nat \<Rightarrow> nat \<Rightarrow> rgb" where
  "nearest im w h x y =
     (if width im = 0 \<or> height im = 0 then (0, 0, 0)
      else getpixel im (x * width im div w) (y * height im div h))"

definition test_host :: host where
  "test_host = \<lparr>sys_byteorder = little, resample = nearest\<rparr>"

text \<open>A one-pixel screenshot, pure red in the grabber's byte order.\<close>

definition red_shot :: screenshot where
  "red_shot = \<lparr>shot_size = (1, 1), bgra = [0, 0, 255, 255]\<rparr>"

text \<open>A screenshot of size zero, and one with a fifth byte for its only pixel.\<close>

definition empty_shot :: screenshot where
  "empty_shot = \<lparr>shot_size = (0, 0), bgra = []\<rparr>"

definition long_shot :: screenshot where
  "long_shot = \<lparr>shot_size = (1, 1), bgra = [0, 0, 255, 255, 7]\<rparr>"

text \<open>A screenshot two pixels wide with the bytes of one pixel only.\<close>

definition short_shot :: screenshot where
  "short_shot = \<lparr>shot_size = (2, 1), bgra = [0, 0, 255, 255]\<rparr>"

text \<open>Sessions: the grabber fails on turn \<open>n\<close> (counted from 0); the peer is gone at
  the send of turn \<open>n\<close>; the process is interrupted during the first capture; the
  grabber delivers a short buffer on turn \<open>n\<close>.\<close>

definition capture_fails_at :: "nat \<Rightarrow> env" where
  "capture_fails_at n =
     \<lparr>mss_open = None,
      grab = (\<lambda>i. if i < n then Inr red_shot else Inl (Exception ''ScreenShotError'')),
      send = (\<lambda>i. None), sleep = (\<lambda>i. None)\<rparr>"

definition peer_gone_at :: "nat \<Rightarrow> env" where
  "peer_gone_at n =
     \<lparr>mss_open = None, grab = (\<lambda>i. Inr red_shot),
      send = (\<lambda>i. if i < n then None else Some ConnectionClosed), sleep = (\<lambda>i. None)\<rparr>"

definition interrupted :: env where
  "interrupted =
     \<lparr>mss_open = None, grab = (\<lambda>i. Inl KeyboardInterrupt),
      send = (\<lambda>i. None), sleep = (\<lambda>i. None)\<rparr>"

definition short_frame_at :: "nat \<Rightarrow> env" where
  "short_frame_at n =
     \<lparr>mss_open = None, grab = (\<lambda>i. if i < n then Inr red_shot else Inr short_shot),
      send = (\<lambda>i. None), sleep = (\<lambda>i. None)\<rparr>"

text \<open>A clock on which only sleeping takes time (none for a negative delay).\<close>

definition sleep_only :: "event \<Rightarrow> rat" where
  "sleep_only a = (case a of Sleep d \<Rightarrow> max 0 d | _ \<Rightarrow> 0)"

text \<open>An image two pixels wide and one high, black with a red marker as its right pixel.\<close>

definition marker_img :: image where
  "marker_img = \<lparr>width = 2, height = 1, pixels = [(0, 0, 0), (255, 0, 0)]\<rparr>"

text \<open>The image the red screenshot decodes to.\<close>

definition red_img :: image where
  "red_img = \<lparr>width = 1, height = 1, pixels = [(255, 0, 0)]\<rparr>"

text \<open>A screenshot two pixels wide and one high, black with a red right pixel: it decodes
  to \<open>marker_img\<close>.\<close>

definition marker_shot :: screenshot where
  "marker_shot = \<lparr>shot_size = (2, 1), bgra = [0, 0, 0, 255, 0, 0, 255, 255]\<rparr>"

section \<open>Packing: the 16-bit word as a number\<close>

lemma uint_astype: "uint (ucast (c :: uint8) :: uint16) = uint c"
  by (rule uint_up_ucast) (simp add: is_up)

lemma uint_red_field:
  "uint (push_bit 8 ((ucast (r :: uint8) :: uint16) AND 0xF8)) = push_bit 8 (uint r AND 0xF8)"
proof -
  have lo: "0 \<le> uint r AND 0xF8" by (simp add: AND_lower)
  have hi: "uint r AND 0xF8 \<le> 0xF8" by (rule AND_upper2) simp
  have "uint (push_bit 8 ((ucast r :: uint16) AND 0xF8))
          = take_bit 16 (push_bit 8 (uint r AND 0xF8))"
    by (simp add: unsigned_push_bit_eq uint_and uint_astype)
  also have "\<dots> = push_bit 8 (uint r AND 0xF8)"
    using lo hi by (intro take_bit_int_eq_self) (simp_all add: push_bit_eq_mult)
  finally show ?thesis .
qed

lemma uint_green_field:
  "uint (push_bit 3 ((ucast (g :: uint8) :: uint16) AND 0xFC)) = push_bit 3 (uint g AND 0xFC)"
proof -
  have lo: "0 \<le> uint g AND 0xFC" by (simp add: AND_lower)
  have hi: "uint g AND 0xFC \<le> 0xFC" by (rule AND_upper2) simp
  have "uint (push_bit 3 ((ucast g :: uint16) AND 0xFC))
          = take_bit 16 (push_bit 3 (uint g AND 0xFC))"
    by (simp add: unsigned_push_bit_eq uint_and uint_astype)
  also have "\<dots> = push_bit 3 (uint g AND 0xFC)"
    using lo hi by (intro take_bit_int_eq_self) (simp_all add: push_bit_eq_mult)
  finally show ?thesis .
qed

lemma uint_blue_field:
  "uint (drop_bit 3 (ucast (b :: uint8) :: uint16)) = drop_bit 3 (uint b)"
proof -
  have "uint b < 2 ^ 8" using uint_lt2p [of b] by simp
  then have "uint b < 2 ^ 16" by simp
  then have "take_bit 16 (uint b) = uint b"
    by (intro take_bit_int_eq_self) simp_all
  then show ?thesis
    by (simp add: unsigned_drop_bit_eq uint_astype)
qed

lemma mask_F8: "(0xF8 :: uint16) = mask 8 AND NOT (mask 3)"
  by (simp add: mask_eq_exp_minus_1)

lemma mask_FC: "(0xFC :: uint16) = mask 8 AND NOT (mask 2)"
  by (simp add: mask_eq_exp_minus_1)

lemma red_slice:
  "(ucast (r :: uint8) :: uint16) AND 0xF8 = push_bit 3 (take_bit 5 (ucast (drop_bit 3 r)))"
proof -
  have "push_bit 3 (take_bit 5 (drop_bit 3 (ucast r :: uint16)))
          = ucast r AND mask (5 + 3) AND NOT (mask 3)"
    by (rule slice_eq_mask)
  also have "\<dots> = ucast r AND (mask 8 AND NOT (mask 3))"
    by (simp add: and.assoc)
  also have "\<dots> = ucast r AND 0xF8"
    by (simp only: mask_F8)
  finally show ?thesis
    by (simp add: ucast_drop_bit_eq)
qed

lemma green_slice:
  "(ucast (g :: uint8) :: uint16) AND 0xFC = push_bit 2 (take_bit 6 (ucast (drop_bit 2 g)))"
proof -
  have "push_bit 2 (take_bit 6 (drop_bit 2 (ucast g :: uint16)))
          = ucast g AND mask (6 + 2) AND NOT (mask 2)"
    by (rule slice_eq_mask)
  also have "\<dots> = ucast g AND (mask 8 AND NOT (mask 2))"
    by (simp add: and.assoc)
  also have "\<dots> = ucast g AND 0xFC"
    by (simp only: mask_FC)
  finally show ?thesis
    by (simp add: ucast_drop_bit_eq)
qed

text \<open>The packed word, field by field: five bits of red from bit 11, six of green from
  bit 5, five of blue from bit 0.\<close>

lemma pack565_fields:
  "pack565 r g b = push_bit 11 (take_bit 5 (ucast (drop_bit 3 r)))
       OR push_bit 5 (take_bit 6 (ucast (drop_bit 2 g))) OR ucast (drop_bit 3 b)"
  by (simp add: pack565_def red_slice green_slice ucast_drop_bit_eq push_bit_push_bit
      del: push_bit_and)

section \<open>The pixel pipeline: decoding, rotation, length\<close>

lemma length_unpack_BGRX: "length (unpack_BGRX data) = length data div 4"
  by (induction data rule: unpack_BGRX.induct) simp_all

lemma nth_unpack_BGRX:
  "i < length data div 4 \<Longrightarrow>
     unpack_BGRX data ! i = (data ! (4 * i + 2), data ! (4 * i + 1), data ! (4 * i))"
proof (induction data arbitrary: i rule: unpack_BGRX.induct)
  case (1 b g r x rest)
  then show ?case by (cases i) simp_all
qed simp_all

lemma length_grid:
  "length (concat (map (\<lambda>y. map (f y) [0..<n]) [0..<m])) = m * n"
  by (induction m) simp_all

lemma grid_index_bound:
  fixes x y n m :: nat
  assumes "x < n" "y < m"
  shows "y * n + x < m * n"
proof -
  have "y * n + x < Suc y * n" using assms(1) by simp
  also have "\<dots> \<le> m * n" using assms(2) by (intro mult_le_mono1) simp
  finally show ?thesis .
qed

lemma nth_grid:
  "x < n \<Longrightarrow> y < m \<Longrightarrow> concat (map (\<lambda>y. map (f y) [0..<n]) [0..<m]) ! (y * n + x) = f y x"
proof (induction m)
  case 0
  then show ?case by simp
next
  case (Suc m)
  show ?case
  proof (cases "y < m")
    case True
    then have "y * n + x < m * n"
      using Suc.prems(1) by (intro grid_index_bound)
    then show ?thesis
      using Suc True by (simp add: nth_append length_grid)
  next
    case False
    then have "y = m" using Suc.prems by simp
    then show ?thesis
      using Suc.prems(1) by (simp add: nth_append length_grid)
  qed
qed

lemma frombytes_decodes:
  assumes "0 < w" "0 < h" "4 * (w * h) \<le> length data"
  shows "frombytes (w, h) data = Inr \<lparr>width = w, height = h, pixels = take (w * h) (unpack_BGRX data)\<rparr>"
  using assms by (simp add: frombytes_def)

lemma frombytes_short:
  assumes "0 < w" "0 < h" "length data < 4 * (w * h)"
  shows "frombytes (w, h) data = Inl (Exception ''ValueError'')"
  using assms by (simp add: frombytes_def)

lemma frombytes_size:
  "frombytes (w, h) data = Inr im \<Longrightarrow> width im = w \<and> height im = h"
  by (auto simp: frombytes_def split: if_splits)

lemma frombytes_pixel:
  assumes "0 < w" "0 < h" "4 * (w * h) \<le> length data" "i < w * h"
  shows "pixels (projr (frombytes (w, h) data)) ! i = (data ! (4 * i + 2), data ! (4 * i + 1), data ! (4 * i))"
proof -
  have "i < length data div 4" using assms(3,4) by simp
  then show ?thesis
    using assms by (simp add: frombytes_decodes nth_unpack_BGRX)
qed

lemma rotate90_size: "width (rotate90 im) = height im" "height (rotate90 im) = width im"
  by (simp_all add: rotate90_def)

lemma rotate90_length: "length (pixels (rotate90 im)) = width im * height im"
  by (simp add: rotate90_def length_grid)

lemma rotate90_pixel:
  assumes "x < width im" "y < height im"
  shows "getpixel (rotate90 im) y (width im - 1 - x) = getpixel im x y"
proof -
  have "width im - 1 - x < width im" using assms(1) by simp
  then have "pixels (rotate90 im) ! ((width im - 1 - x) * height im + y)
      = getpixel im (width im - 1 - (width im - 1 - x)) y"
    using assms(2) by (simp add: rotate90_def nth_grid)
  moreover have "width im - 1 - (width im - 1 - x) = x" using assms(1) by simp
  ultimately show ?thesis by (simp add: getpixel_def rotate90_size)
qed

lemma length_tobytes: "length (tobytes bo vs) = 2 * length vs"
  by (induction vs) (simp_all add: tobytes_def word_bytes_def split: byteorder.split)

lemma resize_length: "length (pixels (resize hst im (w, h))) = w * h"
  by (simp add: resize_def length_grid mult.commute)

lemma frame_length:
  "capture_and_process_frame hst g = Inr buf \<Longrightarrow> length buf = 2 * (DISPLAY_WIDTH * DISPLAY_HEIGHT)"
  by (auto simp: capture_and_process_frame_def Let_def length_tobytes resize_length
      split: sum.splits)

lemma frame_of_valid:
  assumes "valid_frame s"
  shows "\<exists>buf. capture_and_process_frame hst (Inr s) = Inr buf"
proof -
  obtain w h where sz: "shot_size s = (w, h)" by (cases "shot_size s")
  with assms have "0 < w" "0 < h" "4 * (w * h) \<le> length (bgra s)"
    by (simp_all add: valid_frame_def)
  then show ?thesis
    by (simp add: capture_and_process_frame_def sz frombytes_decodes Let_def)
qed

section \<open>The loop, turn by turn\<close>

lemma stream_loop_raise:
  "fst (iteration hst cx i) = Some e \<Longrightarrow>
     stream_loop hst cx i acc = Some (e, acc @ snd (iteration hst cx i))"
  by (cases "iteration hst cx i") (simp add: stream_loop.simps [of hst cx i])

lemma stream_loop_continue:
  "fst (iteration hst cx i) = None \<Longrightarrow>
     stream_loop hst cx i acc = stream_loop hst cx (Suc i) (acc @ snd (iteration hst cx i))"
  by (cases "iteration hst cx i") (simp add: stream_loop.simps [of hst cx i])

lemma turns_Suc: "turns hst cx i (Suc n) = snd (iteration hst cx i) @ turns hst cx (Suc i) n"
  by (simp add: turns_def upt_conv_Cons del: upt_Suc)

lemma turns_0: "turns hst cx i 0 = []"
  by (simp add: turns_def)

lemma stream_loop_turns:
  "(\<forall>j<n. fst (iteration hst cx (i + j)) = None) \<Longrightarrow>
     stream_loop hst cx i acc = stream_loop hst cx (i + n) (acc @ turns hst cx i n)"
proof (induction n arbitrary: i acc)
  case 0
  then show ?case by (simp add: turns_0)
next
  case (Suc n)
  have first: "fst (iteration hst cx i) = None"
    using Suc.prems by (metis add.right_neutral zero_less_Suc)
  have rest: "\<forall>j<n. fst (iteration hst cx (Suc i + j)) = None"
    using Suc.prems by (metis Suc_less_eq add_Suc_shift)
  show ?case
    by (simp add: stream_loop_continue [OF first] Suc.IH [OF rest] turns_Suc)
qed

lemma stream_loop_first_failure:
  assumes "\<forall>j<n. fst (iteration hst cx j) = None" "fst (iteration hst cx n) = Some e"
  shows "stream_loop hst cx 0 acc = Some (e, acc @ turns hst cx 0 n @ snd (iteration hst cx n))"
  using stream_loop_turns [of n hst cx 0 acc] assms
  by (simp add: stream_loop_raise)

lemma handler_first_failure:
  assumes "mss_open cx = None"
    and "\<forall>j<n. fst (iteration hst cx j) = None"
    and "fst (iteration hst cx n) = Some e"
  shows "handler hst cx =
     Some \<lparr>trace = [Print_connected, Mss_enter] @ turns hst cx 0 n @ snd (iteration hst cx n)
                @ (if e = ConnectionClosed then [Print_disconnected, Print_closed, Mss_exit]
                   else if is_Exception e then [Print_unexpected, Print_closed, Mss_exit]
                   else [Print_closed, Mss_exit]),
           raised = (if is_Exception e then None else Some e)\<rparr>"
  using assms(1) stream_loop_first_failure [OF assms(2,3), of "[Print_connected, Mss_enter]"]
  by (simp add: handler_def)


lemma iteration_cases:
  "iteration hst cx j =
     (case capture_and_process_frame hst (grab cx j) of
        Inl e \<Rightarrow> (Some e, [Grab])
      | Inr f \<Rightarrow>
          (case send cx j of
             Some e \<Rightarrow> (Some e, [Grab, Send_raised])
           | None \<Rightarrow>
               (case sleep cx j of
                  Some e \<Rightarrow> (Some e, [Grab, Send f, Sleep_raised])
                | None \<Rightarrow> (None, [Grab, Send f, Sleep (1 / of_nat TARGET_FPS)]))))"
  by (simp add: iteration_def)

lemma iteration_completes:
  assumes "capture_and_process_frame hst (grab cx j) = Inr f" "send cx j = None" "sleep cx j = None"
  shows "iteration hst cx j = (None, [Grab, Send f, Sleep (1 / of_nat TARGET_FPS)])"
  using assms by (simp add: iteration_def)

lemma iteration_completeD:
  assumes "fst (iteration hst cx j) = None"
  shows "\<exists>f. capture_and_process_frame hst (grab cx j) = Inr f \<and> send cx j = None \<and> sleep cx j = None
           \<and> snd (iteration hst cx j) = [Grab, Send f, Sleep (1 / of_nat TARGET_FPS)]"
  using assms by (auto simp: iteration_def split: sum.splits option.splits)

lemma iteration_capture_raises:
  "capture_and_process_frame hst (grab cx j) = Inl e \<Longrightarrow> iteration hst cx j = (Some e, [Grab])"
  by (simp add: iteration_def)

lemma iteration_send_raises:
  "capture_and_process_frame hst (grab cx j) = Inr f \<Longrightarrow> send cx j = Some e \<Longrightarrow>
     iteration hst cx j = (Some e, [Grab, Send_raised])"
  by (simp add: iteration_def)

lemma frames_sent_append: "frames_sent (a @ b) = frames_sent a @ frames_sent b"
  by (induction a rule: frames_sent.induct) simp_all

lemma grabs_append: "grabs (a @ b) = grabs a + grabs b"
  by (simp add: grabs_def)

lemma grabs_iteration: "grabs (snd (iteration hst cx j)) = 1"
  by (simp add: iteration_def grabs_def split: sum.splits option.splits)

lemma grabs_Nil: "grabs [] = 0"
  by (simp add: grabs_def)

lemma grabs_turns: "grabs (turns hst cx i n) = n"
  by (induction n arbitrary: i)
    (simp_all add: turns_0 turns_Suc grabs_append grabs_iteration grabs_Nil)

lemma frames_sent_complete_turns:
  "(\<forall>j<n. fst (iteration hst cx (i + j)) = None) \<Longrightarrow>
     frames_sent (turns hst cx i n) =
       map (\<lambda>j. projr (capture_and_process_frame hst (grab cx j))) [i..<i + n]"
proof (induction n arbitrary: i)
  case 0
  then show ?case by (simp add: turns_0)
next
  case (Suc n)
  have first: "fst (iteration hst cx i) = None"
    using Suc.prems by (metis add.right_neutral zero_less_Suc)
  have rest: "\<forall>j<n. fst (iteration hst cx (Suc i + j)) = None"
    using Suc.prems by (metis Suc_less_eq add_Suc_shift)
  obtain f where f: "capture_and_process_frame hst (grab cx i) = Inr f"
      "snd (iteration hst cx i) = [Grab, Send f, Sleep (1 / of_nat TARGET_FPS)]"
    using iteration_completeD [OF first] by blast
  show ?case
    using Suc.IH [OF rest] f
    by (simp add: turns_Suc frames_sent_append upt_conv_Cons del: upt_Suc)
qed

lemma full_frames_iteration:
  "f \<in> set (frames_sent (snd (iteration hst cx j))) \<Longrightarrow> length f = 2 * (DISPLAY_WIDTH * DISPLAY_HEIGHT)"
  by (auto simp: iteration_def frame_length split: sum.splits option.splits)

section \<open>Every loop that ends has a first failing turn\<close>

lemma first_failure_now:
  assumes "iteration hst cx i = (Some e, evs)"
  shows "first_failure hst cx i acc (e, acc @ evs)"
  unfolding first_failure_def
  by (rule exI [of _ 0]) (simp add: assms turns_0)

lemma first_failure_later:
  assumes it: "iteration hst cx i = (None, evs)"
    and later: "first_failure hst cx (Suc i) (acc @ evs) r"
  shows "first_failure hst cx i acc r"
proof -
  from later obtain n where n: "\<forall>j<n. fst (iteration hst cx (Suc i + j)) = None"
       "fst (iteration hst cx (Suc i + n)) = Some (fst r)"
       "snd r = (acc @ evs) @ turns hst cx (Suc i) n @ snd (iteration hst cx (Suc i + n))"
    unfolding first_failure_def by blast
  have "fst (iteration hst cx (i + j)) = None" if "j < Suc n" for j
  proof (cases j)
    case 0
    then show ?thesis using it by simp
  next
    case (Suc k)
    then show ?thesis using n(1) that by simp
  qed
  moreover have "fst (iteration hst cx (i + Suc n)) = Some (fst r)"
    using n(2) by simp
  moreover have "snd r = acc @ turns hst cx i (Suc n) @ snd (iteration hst cx (i + Suc n))"
    using n(3) it by (simp add: turns_Suc)
  ultimately show ?thesis
    unfolding first_failure_def by blast
qed

lemma stream_loop_SomeD:
  assumes "stream_loop hst cx i acc = Some r"
  shows "first_failure hst cx i acc r"
proof (rule stream_loop.raw_induct [where P = first_failure, OF _ assms])
  fix f hst cx i acc r
  assume IH: "\<And>cx i acc b y. f cx i acc b = Some y \<Longrightarrow> first_failure cx i acc b y"
    and eq: "(case iteration hst cx i of
                (None, evs) \<Rightarrow> f hst cx (Suc i) (acc @ evs)
              | (Some e, evs) \<Rightarrow> Some (e, acc @ evs)) = Some r"
  obtain ox evs where it: "iteration hst cx i = (ox, evs)" by (cases "iteration hst cx i")
  show "first_failure hst cx i acc r"
  proof (cases ox)
    case None
    with it have it': "iteration hst cx i = (None, evs)" by simp
    with eq have "f hst cx (Suc i) (acc @ evs) = Some r" by simp
    then have "first_failure hst cx (Suc i) (acc @ evs) r" by (rule IH)
    with it' show ?thesis by (rule first_failure_later)
  next
    case (Some e)
    with it have it': "iteration hst cx i = (Some e, evs)" by simp
    with eq have "r = (e, acc @ evs)" by simp
    with it' show ?thesis by (simp add: first_failure_now)
  qed
qed

section \<open>A session that ends\<close>

lemma full_frames_turns:
  "f \<in> set (frames_sent (turns hst cx i n)) \<Longrightarrow> length f = 2 * (DISPLAY_WIDTH * DISPLAY_HEIGHT)"
proof (induction n arbitrary: i)
  case 0
  then show ?case by (simp add: turns_0)
next
  case (Suc n)
  then show ?case
    by (auto simp: turns_Suc frames_sent_append dest: full_frames_iteration)
qed

lemma frame_bytes: "2 * (DISPLAY_WIDTH * DISPLAY_HEIGHT) = 411640"
  by (simp add: DISPLAY_WIDTH_def DISPLAY_HEIGHT_def)

lemma valid_turn_completes:
  assumes "grab cx j = Inr shot" "valid_frame shot" "send cx j = None" "sleep cx j = None"
  shows "fst (iteration hst cx j) = None"
proof -
  obtain buf where "capture_and_process_frame hst (grab cx j) = Inr buf"
    using frame_of_valid [OF assms(2), of hst] assms(1) by auto
  then show ?thesis
    using assms(3,4) by (simp add: iteration_completes)
qed

text \<open>What a session that ends in turn n has done.\<close>

lemma session_summary:
  assumes "mss_open cx = None"
    and "\<forall>j<n. fst (iteration hst cx j) = None"
    and "fst (iteration hst cx n) = Some e"
  shows "\<exists>s. handler hst cx = Some s
          \<and> raised s = (if is_Exception e then None else Some e)
          \<and> trace s = [Print_connected, Mss_enter] @ turns hst cx 0 n @ snd (iteration hst cx n)
                @ (if e = ConnectionClosed then [Print_disconnected, Print_closed, Mss_exit]
                   else if is_Exception e then [Print_unexpected, Print_closed, Mss_exit]
                   else [Print_closed, Mss_exit])
          \<and> frames_sent (trace s) =
                map (\<lambda>j. projr (capture_and_process_frame hst (grab cx j))) [0..<n]
                  @ frames_sent (snd (iteration hst cx n))
          \<and> (\<forall>f \<in> set (frames_sent (trace s)). length f = 411640)
          \<and> grabs (trace s) = Suc n
          \<and> released (trace s)"
proof -
  define tail where "tail = (if e = ConnectionClosed then [Print_disconnected, Print_closed, Mss_exit]
               else if is_Exception e then [Print_unexpected, Print_closed, Mss_exit]
               else [Print_closed, Mss_exit])"
  define tr where "tr = [Print_connected, Mss_enter] @ turns hst cx 0 n @ snd (iteration hst cx n) @ tail"
  define s where "s = \<lparr>trace = tr, raised = (if is_Exception e then None else Some e)\<rparr>"
  have h: "handler hst cx = Some s"
    unfolding s_def tr_def tail_def by (rule handler_first_failure [OF assms])
  have tail: "frames_sent tail = []" "grabs tail = 0" "tail \<noteq> []" "last tail = Mss_exit"
    by (simp_all add: grabs_def tail_def)
  have sent: "frames_sent tr =
      map (\<lambda>j. projr (capture_and_process_frame hst (grab cx j))) [0..<n]
        @ frames_sent (snd (iteration hst cx n))"
    using frames_sent_complete_turns [of n hst cx 0] assms(2)
    by (simp add: tr_def frames_sent_append tail)
  have full: "\<forall>f \<in> set (frames_sent tr). length f = 411640"
    using full_frames_turns [of _ hst cx 0 n] full_frames_iteration [of _ hst cx n]
    by (auto simp: tr_def frames_sent_append tail frame_bytes)
  have head: "grabs [Print_connected, Mss_enter] = 0"
    by (simp add: grabs_def)
  have gr: "grabs tr = Suc n"
    unfolding tr_def grabs_append by (simp add: head grabs_turns grabs_iteration tail)
  have rel: "released tr"
    using tail(3,4) by (simp add: released_def tr_def)
  show ?thesis
    using h sent full gr rel
    by (intro exI [of _ s]) (simp add: s_def, simp add: tr_def tail_def)
qed

section \<open>More on decoding, failure and time\<close>

lemma unpack_BGRX_pad:
  assumes len: "length d = length d'"
    and same: "\<forall>j<length d. j mod 4 \<noteq> 3 \<longrightarrow> d ! j = d' ! j"
  shows "unpack_BGRX d = unpack_BGRX d'"
proof (rule nth_equalityI)
  show "length (unpack_BGRX d) = length (unpack_BGRX d')"
    by (simp add: length_unpack_BGRX len)
next
  fix i assume "i < length (unpack_BGRX d)"
  then have i: "i < length d div 4" by (simp add: length_unpack_BGRX)
  then have "4 * i + 2 < length d" "4 * i + 1 < length d" "4 * i < length d" by simp_all
  moreover have "(4 * i + 2) mod 4 \<noteq> 3" "(4 * i + 1) mod 4 \<noteq> 3" "(4 * i) mod 4 \<noteq> 3"
    by presburger+
  ultimately have "d ! (4 * i + 2) = d' ! (4 * i + 2)" "d ! (4 * i + 1) = d' ! (4 * i + 1)"
      "d ! (4 * i) = d' ! (4 * i)"
    using same by blast+
  then show "unpack_BGRX d ! i = unpack_BGRX d' ! i"
    using i len by (simp add: nth_unpack_BGRX)
qed

lemma frombytes_pad:
  assumes "length d = length d'" "\<forall>j<length d. j mod 4 \<noteq> 3 \<longrightarrow> d ! j = d' ! j"
  shows "frombytes sz d = frombytes sz d'"
  using unpack_BGRX_pad [OF assms] assms(1) by (cases sz) (simp add: frombytes_def)

lemma transform_fails_iff:
  assumes "shot_size s = (w, h)"
  shows "isl (capture_and_process_frame hst (Inr s)) \<longleftrightarrow> 0 < w \<and> 0 < h \<and> length (bgra s) < 4 * (w * h)"
  using assms by (simp add: capture_and_process_frame_def frombytes_def Let_def)

lemma transform_short:
  assumes "shot_size s = (w, h)" "0 < w" "0 < h" "length (bgra s) < 4 * (w * h)"
  shows "capture_and_process_frame hst (Inr s) = Inl (Exception ''ValueError'')"
  using assms by (simp add: capture_and_process_frame_def frombytes_def)

lemma handler_SomeD:
  assumes "mss_open cx = None" "handler hst cx = Some s"
  shows "\<exists>n e. (\<forall>j<n. fst (iteration hst cx j) = None) \<and> fst (iteration hst cx n) = Some e"
proof -
  from assms obtain r where r: "stream_loop hst cx 0 [Print_connected, Mss_enter] = Some r"
    by (auto simp: handler_def split: option.splits)
  from stream_loop_SomeD [OF r] show ?thesis
    unfolding first_failure_def by auto
qed

lemma elapsed_append: "elapsed dur (a @ b) = elapsed dur a + elapsed dur b"
  by (simp add: elapsed_def)

lemma timing_nonneg: "timing dur \<Longrightarrow> 0 \<le> dur a"
  by (simp add: timing_def)

lemma timing_sleep: "timing dur \<Longrightarrow> d \<le> dur (Sleep d)"
  unfolding timing_def by (drule spec [of _ "Sleep d"]) simp

lemma elapsed_complete_turn:
  assumes "timing dur" "fst (iteration hst cx j) = None"
  shows "1 / of_nat TARGET_FPS + dur Grab + dur (Send (projr (capture_and_process_frame hst (grab cx j))))
           \<le> elapsed dur (snd (iteration hst cx j))"
proof -
  obtain f where f: "capture_and_process_frame hst (grab cx j) = Inr f"
      "snd (iteration hst cx j) = [Grab, Send f, Sleep (1 / of_nat TARGET_FPS)]"
    using iteration_completeD [OF assms(2)] by blast
  show ?thesis
    using timing_sleep [OF assms(1), of "1 / of_nat TARGET_FPS"]
    by (simp add: f elapsed_def)
qed

lemma elapsed_complete_turns:
  assumes "timing dur"
  shows "(\<forall>j<n. fst (iteration hst cx (i + j)) = None) \<Longrightarrow>
     of_nat n * (1 / of_nat TARGET_FPS) \<le> elapsed dur (turns hst cx i n)"
proof (induction n arbitrary: i)
  case 0
  then show ?case by (simp add: turns_0 elapsed_def)
next
  case (Suc n)
  have first: "fst (iteration hst cx i) = None"
    using Suc.prems by (metis add.right_neutral zero_less_Suc)
  have rest: "\<forall>j<n. fst (iteration hst cx (Suc i + j)) = None"
    using Suc.prems by (metis Suc_less_eq add_Suc_shift)
  have "1 / of_nat TARGET_FPS \<le> elapsed dur (snd (iteration hst cx i))"
    using elapsed_complete_turn [OF assms first] timing_nonneg [OF assms, of Grab]
      timing_nonneg [OF assms, of "Send (projr (capture_and_process_frame hst (grab cx i)))"]
    by linarith
  with Suc.IH [OF rest] show ?case
    by (simp add: turns_Suc elapsed_append add_divide_distrib)
qed

lemma complete_turns_events:
  "(\<forall>j<n. fst (iteration hst cx (i + j)) = None) \<Longrightarrow>
     turns hst cx i n =
       concat (map (\<lambda>j. [Grab, Send (projr (capture_and_process_frame hst (grab cx j))),
                          Sleep (1 / of_nat TARGET_FPS)]) [i..<i + n])"
proof (induction n arbitrary: i)
  case 0
  then show ?case by (simp add: turns_0)
next
  case (Suc n)
  have first: "fst (iteration hst cx i) = None"
    using Suc.prems by (metis add.right_neutral zero_less_Suc)
  have rest: "\<forall>j<n. fst (iteration hst cx (Suc i + j)) = None"
    using Suc.prems by (metis Suc_less_eq add_Suc_shift)
  obtain f where f: "capture_and_process_frame hst (grab cx i) = Inr f"
      "snd (iteration hst cx i) = [Grab, Send f, Sleep (1 / of_nat TARGET_FPS)]"
    using iteration_completeD [OF first] by blast
  show ?case
    using Suc.IH [OF rest] f by (simp add: turns_Suc upt_conv_Cons del: upt_Suc)
qed

lemma iteration_order:
  "\<exists>f. snd (iteration hst cx j) = [Grab]
      \<or> snd (iteration hst cx j) = [Grab, Send_raised]
      \<or> snd (iteration hst cx j) = [Grab, Send f, Sleep_raised]
      \<or> snd (iteration hst cx j) = [Grab, Send f, Sleep (1 / of_nat TARGET_FPS)]"
  by (auto simp: iteration_def split: sum.splits option.splits)

lemma timing_sleep_only: "timing sleep_only"
  by (auto simp: timing_def sleep_only_def split: event.splits)

lemma red_turn_completes:
  "grab cx j = Inr red_shot \<Longrightarrow> send cx j = None \<Longrightarrow> sleep cx j = None \<Longrightarrow>
     fst (iteration hst cx j) = None"
  by (rule valid_turn_completes [of cx j red_shot]) (simp_all add: valid_frame_def red_shot_def)

section \<open>Rotation moves pixels and loses none\<close>

lemma mset_map_upt: "mset (map g [0..<n]) = (\<Sum>i<n. {#g i#})"
  by (induction n) simp_all

lemma mset_grid:
  "mset (concat (map (\<lambda>y. map (f y) [0..<n]) [0..<m])) = (\<Sum>y<m. \<Sum>x<n. {#f y x#})"
proof (induction m)
  case 0
  show ?case by simp
next
  case (Suc m)
  have "mset (concat (map (\<lambda>y. map (f y) [0..<n]) [0..<Suc m]))
      = mset (concat (map (\<lambda>y. map (f y) [0..<n]) [0..<m])) + mset (map (f m) [0..<n])"
    by (simp del: mset_map)
  then show ?case
    by (simp only: Suc.IH mset_map_upt sum.lessThan_Suc)
qed

lemma mset_nth_sum: "mset xs = (\<Sum>k<length xs. {#xs ! k#})"
proof -
  have "mset xs = mset (map (nth xs) [0..<length xs])" by (simp add: map_nth)
  then show ?thesis by (simp only: mset_map_upt)
qed

lemma sum_rows:
  fixes g :: "nat \<Rightarrow> 'a multiset"
  shows "(\<Sum>k<h * w. g k) = (\<Sum>y<h. \<Sum>x<w. g (y * w + x))"
proof -
  have "(\<Sum>y<h. \<Sum>x<w. g (y * w + x)) = (\<Sum>y<h. sum g {y * w..<y * w + w})"
  proof (rule sum.cong)
    fix y
    have "sum g {0 + y * w..<w + y * w} = (\<Sum>x = 0..<w. g (x + y * w))"
      by (rule sum.shift_bounds_nat_ivl)
    then show "(\<Sum>x<w. g (y * w + x)) = sum g {y * w..<y * w + w}"
      by (simp add: add.commute lessThan_atLeast0)
  qed simp
  also have "\<dots> = sum g {..<h * w}"
    by (rule sum.nat_group)
  finally show ?thesis by simp
qed

lemma rotate90_mset:
  assumes "length (pixels im) = width im * height im"
  shows "mset (pixels (rotate90 im)) = mset (pixels im)"
proof -
  let ?w = "width im" and ?h = "height im" and ?p = "pixels im"
  have "mset (pixels (rotate90 im)) = (\<Sum>yr<?w. \<Sum>xr<?h. {#?p ! (xr * ?w + (?w - 1 - yr))#})"
    by (simp add: rotate90_def mset_grid getpixel_def)
  also have "\<dots> = (\<Sum>x<?w. \<Sum>y<?h. {#?p ! (y * ?w + x)#})"
    using sum.nat_diff_reindex [of "\<lambda>x. \<Sum>y<?h. {#?p ! (y * ?w + x)#}" ?w] by simp
  also have "\<dots> = (\<Sum>y<?h. \<Sum>x<?w. {#?p ! (y * ?w + x)#})"
    by (rule sum.swap)
  also have "\<dots> = (\<Sum>k<?h * ?w. {#?p ! k#})"
    by (rule sum_rows [symmetric])
  also have "\<dots> = mset ?p"
    using assms by (simp add: mset_nth_sum [of ?p] mult.commute)
  finally show ?thesis .
qed

section \<open>A whole frame, end to end\<close>

lemma constant_row: "(\<forall>x<n. f x = c) \<Longrightarrow> map f [0..<n] = replicate n c"
  by (induction n) (simp_all add: replicate_append_same)

lemma constant_grid:
  "(\<forall>y<m. \<forall>x<n. f y x = c) \<Longrightarrow>
     concat (map (\<lambda>y. map (f y) [0..<n]) [0..<m]) = replicate (m * n) c"
proof (induction m)
  case 0
  show ?case by simp
next
  case (Suc m)
  have row: "map (f m) [0..<n] = replicate n c"
    using Suc.prems by (intro constant_row) simp
  have "concat (map (\<lambda>y. map (f y) [0..<n]) [0..<m]) = replicate (m * n) c"
    using Suc.prems by (intro Suc.IH) simp
  then show ?case
    by (simp add: row replicate_add [symmetric] add.commute)
qed

lemma tobytes_replicate: "tobytes bo (replicate n v) = concat (replicate n (word_bytes bo v))"
  by (simp add: tobytes_def map_replicate)

text \<open>The red screenshot on the little-endian host: every pixel of the frame is the
  word \<open>0xF800\<close>, low byte first.\<close>

lemma red_frame:
  "capture_and_process_frame test_host (Inr red_shot)
     = Inr (concat (replicate (DISPLAY_WIDTH * DISPLAY_HEIGHT) [0x00, 0xF8]))"
proof -
  define img where "img = \<lparr>width = 1, height = 1, pixels = [(255, 0, 0) :: rgb]\<rparr>"
  have dec: "frombytes (shot_size red_shot) (bgra red_shot) = Inr img"
    by (simp add: red_shot_def frombytes_def img_def)
  have rot: "rotate90 img = img"
    by (simp add: rotate90_def getpixel_def img_def)
  have near: "nearest img w h x y = (255, 0, 0)" if "x < w" "y < h" for w h x y
    using that by (simp add: nearest_def getpixel_def img_def)
  have px: "pixels (resize test_host img (w, h)) = replicate (h * w) (255, 0, 0)" for w h
    by (simp add: resize_def test_host_def constant_grid near)
  have word: "word_bytes little (rgb565 (255, 0, 0)) = [0x00, 0xF8]"
    by (simp add: word_bytes_def rgb565_def pack565_def)
  have "capture_and_process_frame test_host (Inr red_shot)
      = Inr (tobytes little (map rgb565 (pixels (resize test_host img (DISPLAY_WIDTH, DISPLAY_HEIGHT)))))"
    by (simp add: capture_and_process_frame_def dec rot Let_def test_host_def)
  also have "\<dots> = Inr (concat (replicate (DISPLAY_HEIGHT * DISPLAY_WIDTH) [0x00, 0xF8]))"
    by (simp only: px map_replicate tobytes_replicate word)
  finally show ?thesis
    by (simp add: mult.commute)
qed

section \<open>The frame read back, word by word\<close>

lemma join_bytes:
  "push_bit 8 (ucast (ucast (drop_bit 8 v) :: uint8)) OR ucast (ucast v :: uint8) = (v :: uint16)"
  by (rule bit_word_eqI) (auto simp: bit_simps)

lemma frombuffer_word_bytes: "frombuffer bo (word_bytes bo v @ rest) = v # frombuffer bo rest"
  by (cases bo) (simp_all add: word_bytes_def join_bytes)

lemma frombuffer_tobytes: "frombuffer bo (tobytes bo vs) = vs"
proof (induction vs)
  case Nil
  show ?case by (simp add: tobytes_def)
next
  case (Cons v vs)
  have "tobytes bo (v # vs) = word_bytes bo v @ tobytes bo vs"
    by (simp add: tobytes_def)
  then show ?case
    by (simp only: frombuffer_word_bytes Cons.IH)
qed

lemma length_word_bytes: "length (word_bytes bo v) = 2"
  by (cases bo) (simp_all add: word_bytes_def)

lemma tobytes_slice:
  "k < length vs \<Longrightarrow> take 2 (drop (2 * k) (tobytes bo vs)) = word_bytes bo (vs ! k)"
proof (induction vs arbitrary: k)
  case Nil
  then show ?case by simp
next
  case (Cons v vs)
  have step: "tobytes bo (v # vs) = word_bytes bo v @ tobytes bo vs"
    by (simp add: tobytes_def)
  show ?case
  proof (cases k)
    case 0
    then show ?thesis by (simp add: step length_word_bytes)
  next
    case (Suc j)
    then have "j < length vs" using Cons.prems by simp
    then have "take 2 (drop (2 * j) (tobytes bo vs)) = word_bytes bo (vs ! j)"
      by (rule Cons.IH)
    then show ?thesis
      by (simp add: step Suc length_word_bytes)
  qed
qed

lemma pipeline_stages:
  assumes "frombytes (shot_size s) (bgra s) = Inr img"
  shows "capture_and_process_frame hst (Inr s) =
     Inr (tobytes (sys_byteorder hst)
           (map rgb565 (pixels (resize hst (rotate90 img) (DISPLAY_WIDTH, DISPLAY_HEIGHT)))))"
  using assms by (simp add: capture_and_process_frame_def Let_def)

lemma resize_pixel:
  "x < w \<Longrightarrow> y < h \<Longrightarrow> pixels (resize hst im (w, h)) ! (y * w + x) = resample hst im w h x y"
  by (simp add: resize_def nth_grid)

lemma pipeline_words:
  assumes "frombytes (shot_size s) (bgra s) = Inr img"
    and "capture_and_process_frame hst (Inr s) = Inr buf"
  shows "frombuffer (sys_byteorder hst) buf =
           map rgb565 (pixels (resize hst (rotate90 img) (DISPLAY_WIDTH, DISPLAY_HEIGHT)))"
    and "length (frombuffer (sys_byteorder hst) buf) = DISPLAY_WIDTH * DISPLAY_HEIGHT"
  using assms(2) unfolding pipeline_stages [OF assms(1)]
  by (auto simp: frombuffer_tobytes resize_length)

lemma pipeline_word_at:
  assumes "frombytes (shot_size s) (bgra s) = Inr img"
    and "capture_and_process_frame hst (Inr s) = Inr buf"
    and "x < DISPLAY_WIDTH" "y < DISPLAY_HEIGHT"
  shows "frombuffer (sys_byteorder hst) buf ! (y * DISPLAY_WIDTH + x)
           = rgb565 (resample hst (rotate90 img) DISPLAY_WIDTH DISPLAY_HEIGHT x y)"
    and "take 2 (drop (2 * (y * DISPLAY_WIDTH + x)) buf)
           = word_bytes (sys_byteorder hst)
               (rgb565 (resample hst (rotate90 img) DISPLAY_WIDTH DISPLAY_HEIGHT x y))"
proof -
  let ?px = "pixels (resize hst (rotate90 img) (DISPLAY_WIDTH, DISPLAY_HEIGHT))"
  have k: "y * DISPLAY_WIDTH + x < length ?px"
    using grid_index_bound [OF assms(3,4)] by (simp add: resize_length mult.commute)
  have px: "?px ! (y * DISPLAY_WIDTH + x) = resample hst (rotate90 img) DISPLAY_WIDTH DISPLAY_HEIGHT x y"
    using assms(3,4) by (rule resize_pixel)
  have buf: "buf = tobytes (sys_byteorder hst) (map rgb565 ?px)"
    using assms(2) unfolding pipeline_stages [OF assms(1)] by simp
  show "frombuffer (sys_byteorder hst) buf ! (y * DISPLAY_WIDTH + x)
           = rgb565 (resample hst (rotate90 img) DISPLAY_WIDTH DISPLAY_HEIGHT x y)"
    using k px by (simp add: pipeline_words(1) [OF assms(1,2)])
  show "take 2 (drop (2 * (y * DISPLAY_WIDTH + x)) buf)
           = word_bytes (sys_byteorder hst)
               (rgb565 (resample hst (rotate90 img) DISPLAY_WIDTH DISPLAY_HEIGHT x y))"
    using k px tobytes_slice [of "y * DISPLAY_WIDTH + x" "map rgb565 ?px" "sys_byteorder hst"]
    by (simp add: buf)
qed

lemma decoded_valid:
  assumes "valid_frame s" "shot_size s = (w, h)"
  shows "frombytes (shot_size s) (bgra s)
           = Inr \<lparr>width = w, height = h, pixels = take (w * h) (unpack_BGRX (bgra s))\<rparr>"
    and "length (take (w * h) (unpack_BGRX (bgra s))) = w * h"
  using assms by (simp_all add: valid_frame_def frombytes_decodes length_unpack_BGRX)

lemma rotate90_set:
  "length (pixels im) = width im * height im \<Longrightarrow> set (pixels (rotate90 im)) = set (pixels im)"
  using rotate90_mset [of im] by (metis set_mset_mset)

lemma display_positive: "0 < DISPLAY_WIDTH" "0 < DISPLAY_HEIGHT"
  by (simp_all add: DISPLAY_WIDTH_def DISPLAY_HEIGHT_def)

lemma grid_index_split:
  fixes n w h :: nat
  assumes "n < w * h"
  shows "n mod w < w" "n div w < h" "n div w * w + n mod w = n"
proof -
  have w: "0 < w" using assms by (cases w) simp_all
  then show "n mod w < w" by simp
  show "n div w < h" using assms w by (simp add: less_mult_imp_div_less mult.commute)
  show "n div w * w + n mod w = n" by simp
qed

lemma red_shot_decoded: "frombytes (shot_size red_shot) (bgra red_shot) = Inr red_img"
  by (simp add: red_shot_def frombytes_def red_img_def)

lemma red_img_sampled:
  "x < w \<Longrightarrow> y < h \<Longrightarrow> resample test_host (rotate90 red_img) w h x y = (255, 0, 0)"
  by (simp add: test_host_def nearest_def rotate90_def getpixel_def red_img_def)

lemma red_shot_valid: "valid_frame red_shot"
  by (simp add: valid_frame_def red_shot_def)

lemma marker_shot_decoded: "frombytes (shot_size marker_shot) (bgra marker_shot) = Inr marker_img"
  by (simp add: marker_shot_def frombytes_def marker_img_def)

lemma marker_shot_valid: "valid_frame marker_shot" "shot_size marker_shot = (2, 1)"
  by (simp_all add: valid_frame_def marker_shot_def)

section \<open>The server, connection after connection\<close>

lemma serve_killed: "killed hst cx \<Longrightarrow> serve hst (cx # rest) = [handler hst cx]"
  by (auto simp: killed_def split: option.splits)

lemma serve_not_killed: "\<not> killed hst cx \<Longrightarrow> serve hst (cx # rest) = handler hst cx # serve hst rest"
  by (auto simp: killed_def split: option.splits)

lemma serve_through:
  "(\<forall>c \<in> set before. \<not> killed hst c) \<Longrightarrow>
     serve hst (before @ rest) = map (handler hst) before @ serve hst rest"
proof (induction before)
  case Nil
  show ?case by simp
next
  case (Cons c before)
  then have "\<not> killed hst c" and "\<forall>c \<in> set before. \<not> killed hst c" by simp_all
  then show ?case
    using Cons.IH by (simp add: serve_not_killed del: serve.simps)
qed

lemma exception_not_killed:
  assumes "mss_open cx = None"
    and "\<forall>j<n. fst (iteration hst cx j) = None"
    and "fst (iteration hst cx n) = Some e"
    and "is_Exception e"
  shows "\<not> killed hst cx"
  using handler_first_failure [OF assms(1,2,3)] assms(4) by (simp add: killed_def)

section \<open>Properties of the pixel pipeline\<close>

text \<open>
  Claim C1. For every valid raw frame (non-zero width and height, four bytes per pixel),
  whatever its dimensions, the host's filter and its byte order, the transform returns a
  buffer, and that buffer has exactly \<open>2 * DISPLAY_WIDTH * DISPLAY_HEIGHT\<close> bytes, which is
  411640 for the configured 410 by 502.
\<close>

theorem transform_output_length:
  assumes "valid_frame s"
  shows "\<exists>buf. capture_and_process_frame hst (Inr s) = Inr buf
           \<and> length buf = 2 * DISPLAY_WIDTH * DISPLAY_HEIGHT \<and> length buf = 411640"
proof -
  obtain buf where buf: "capture_and_process_frame hst (Inr s) = Inr buf"
    using frame_of_valid [OF assms] by blast
  then have "length buf = 2 * (DISPLAY_WIDTH * DISPLAY_HEIGHT)"
    by (rule frame_length)
  with buf show ?thesis
    by (simp add: frame_bytes [symmetric])
qed

text \<open>The one-pixel red screenshot is valid and yields 411640 bytes.\<close>

theorem transform_output_length_witness:
  "valid_frame red_shot
     \<and> (\<exists>buf. capture_and_process_frame test_host (Inr red_shot) = Inr buf \<and> length buf = 411640)"
proof -
  have v: "valid_frame red_shot"
    by (simp add: valid_frame_def red_shot_def)
  show ?thesis
    using v transform_output_length [OF v, of test_host] by blast
qed

text \<open>
  Claim C2. Read as a number, the packed 16-bit word of any three 8-bit channels is
  \<open>((R AND 0xF8) << 8) OR ((G AND 0xFC) << 3) OR (B >> 3)\<close> computed on unbounded integers:
  after the cast to 16 bits no shift loses a bit. Red packs to \<open>0xF800\<close>, green to
  \<open>0x07E0\<close>, blue to \<open>0x001F\<close> and white to \<open>0xFFFF\<close>. And this is what the transform
  emits: for every valid raw frame the buffer holds one word per target pixel, the word at
  column \<open>x\<close>, row \<open>y\<close> is the packing of the three channels of the resized pixel there,
  its two bytes stand at offset \<open>2 * (y * width + x)\<close>, and a frame that is one colour
  after the resize is that colour's word throughout.
\<close>

theorem pack565_formula:
  "uint (pack565 r g b) = push_bit 8 (uint r AND 0xF8) OR push_bit 3 (uint g AND 0xFC) OR drop_bit 3 (uint b)
     \<and> pack565 255 0 0 = 0xF800 \<and> pack565 0 255 0 = 0x07E0
     \<and> pack565 0 0 255 = 0x001F \<and> pack565 255 255 255 = 0xFFFF
     \<and> (valid_frame s \<longrightarrow>
          (\<exists>img buf. frombytes (shot_size s) (bgra s) = Inr img
             \<and> capture_and_process_frame hst (Inr s) = Inr buf
             \<and> length (frombuffer (sys_byteorder hst) buf) = DISPLAY_WIDTH * DISPLAY_HEIGHT
             \<and> (\<forall>x<DISPLAY_WIDTH. \<forall>y<DISPLAY_HEIGHT. \<forall>pr pg pb.
                   resample hst (rotate90 img) DISPLAY_WIDTH DISPLAY_HEIGHT x y = (pr, pg, pb) \<longrightarrow>
                     frombuffer (sys_byteorder hst) buf ! (y * DISPLAY_WIDTH + x) = pack565 pr pg pb
                   \<and> uint (frombuffer (sys_byteorder hst) buf ! (y * DISPLAY_WIDTH + x))
                       = push_bit 8 (uint pr AND 0xF8) OR push_bit 3 (uint pg AND 0xFC)
                           OR drop_bit 3 (uint pb)
                   \<and> take 2 (drop (2 * (y * DISPLAY_WIDTH + x)) buf)
                       = word_bytes (sys_byteorder hst) (pack565 pr pg pb))
             \<and> (\<forall>c. (\<forall>x<DISPLAY_WIDTH. \<forall>y<DISPLAY_HEIGHT.
                         resample hst (rotate90 img) DISPLAY_WIDTH DISPLAY_HEIGHT x y = c) \<longrightarrow>
                     frombuffer (sys_byteorder hst) buf
                       = replicate (DISPLAY_WIDTH * DISPLAY_HEIGHT) (rgb565 c))))"
proof -
  have formula: "uint (pack565 r g b)
      = push_bit 8 (uint r AND 0xF8) OR push_bit 3 (uint g AND 0xFC) OR drop_bit 3 (uint b)" for r g b
    unfolding pack565_def uint_or uint_red_field uint_green_field uint_blue_field ..
  have colours: "pack565 255 0 0 = 0xF800" "pack565 0 255 0 = 0x07E0"
    "pack565 0 0 255 = 0x001F" "pack565 255 255 255 = 0xFFFF"
    by (simp_all add: pack565_def)
  have pipeline: "\<exists>img buf. frombytes (shot_size s) (bgra s) = Inr img
             \<and> capture_and_process_frame hst (Inr s) = Inr buf
             \<and> length (frombuffer (sys_byteorder hst) buf) = DISPLAY_WIDTH * DISPLAY_HEIGHT
             \<and> (\<forall>x<DISPLAY_WIDTH. \<forall>y<DISPLAY_HEIGHT. \<forall>pr pg pb.
                   resample hst (rotate90 img) DISPLAY_WIDTH DISPLAY_HEIGHT x y = (pr, pg, pb) \<longrightarrow>
                     frombuffer (sys_byteorder hst) buf ! (y * DISPLAY_WIDTH + x) = pack565 pr pg pb
                   \<and> uint (frombuffer (sys_byteorder hst) buf ! (y * DISPLAY_WIDTH + x))
                       = push_bit 8 (uint pr AND 0xF8) OR push_bit 3 (uint pg AND 0xFC)
                           OR drop_bit 3 (uint pb)
                   \<and> take 2 (drop (2 * (y * DISPLAY_WIDTH + x)) buf)
                       = word_bytes (sys_byteorder hst) (pack565 pr pg pb))
             \<and> (\<forall>c. (\<forall>x<DISPLAY_WIDTH. \<forall>y<DISPLAY_HEIGHT.
                         resample hst (rotate90 img) DISPLAY_WIDTH DISPLAY_HEIGHT x y = c) \<longrightarrow>
                     frombuffer (sys_byteorder hst) buf
                       = replicate (DISPLAY_WIDTH * DISPLAY_HEIGHT) (rgb565 c))"
    if v: "valid_frame s"
  proof -
    obtain w h where sz: "shot_size s = (w, h)" by (cases "shot_size s")
    define img where "img = \<lparr>width = w, height = h, pixels = take (w * h) (unpack_BGRX (bgra s))\<rparr>"
    have dec: "frombytes (shot_size s) (bgra s) = Inr img"
      unfolding img_def by (rule decoded_valid(1) [OF v sz])
    obtain buf where buf: "capture_and_process_frame hst (Inr s) = Inr buf"
      using frame_of_valid [OF v] by blast
    note words = pipeline_words [OF dec buf]
    have at: "frombuffer (sys_byteorder hst) buf ! (y * DISPLAY_WIDTH + x) = pack565 pr pg pb
            \<and> uint (frombuffer (sys_byteorder hst) buf ! (y * DISPLAY_WIDTH + x))
                 = push_bit 8 (uint pr AND 0xF8) OR push_bit 3 (uint pg AND 0xFC) OR drop_bit 3 (uint pb)
            \<and> take 2 (drop (2 * (y * DISPLAY_WIDTH + x)) buf)
                 = word_bytes (sys_byteorder hst) (pack565 pr pg pb)"
      if "x < DISPLAY_WIDTH" "y < DISPLAY_HEIGHT"
        "resample hst (rotate90 img) DISPLAY_WIDTH DISPLAY_HEIGHT x y = (pr, pg, pb)"
      for x y pr pg pb
      using pipeline_word_at [OF dec buf that(1,2)] that(3)
      by (simp add: rgb565_def formula)
    have solid: "frombuffer (sys_byteorder hst) buf
                       = replicate (DISPLAY_WIDTH * DISPLAY_HEIGHT) (rgb565 c)"
      if "\<forall>x<DISPLAY_WIDTH. \<forall>y<DISPLAY_HEIGHT.
            resample hst (rotate90 img) DISPLAY_WIDTH DISPLAY_HEIGHT x y = c" for c
    proof -
      have "pixels (resize hst (rotate90 img) (DISPLAY_WIDTH, DISPLAY_HEIGHT))
          = replicate (DISPLAY_HEIGHT * DISPLAY_WIDTH) c"
        using that by (simp add: resize_def constant_grid)
      then show ?thesis
        by (simp add: words(1) mult.commute)
    qed
    show ?thesis
      using dec buf words(2) at solid by blast
  qed
  show ?thesis
    using formula [of r g b] colours pipeline by blast
qed

text \<open>The red screenshot on the little-endian host with the nearest-pixel filter: every
  word of its frame is \<open>0xF800\<close>.\<close>

theorem pack565_formula_witness:
  "valid_frame red_shot
     \<and> (\<exists>buf. capture_and_process_frame test_host (Inr red_shot) = Inr buf
           \<and> frombuffer little buf ! 0 = 0xF800
           \<and> frombuffer little buf = replicate (DISPLAY_WIDTH * DISPLAY_HEIGHT) 0xF800)"
proof -
  from pack565_formula [of 0 0 0 red_shot test_host] red_shot_valid
  obtain img buf where dec: "frombytes (shot_size red_shot) (bgra red_shot) = Inr img"
    and buf: "capture_and_process_frame test_host (Inr red_shot) = Inr buf"
    and at: "\<forall>x<DISPLAY_WIDTH. \<forall>y<DISPLAY_HEIGHT. \<forall>pr pg pb.
                resample test_host (rotate90 img) DISPLAY_WIDTH DISPLAY_HEIGHT x y = (pr, pg, pb) \<longrightarrow>
                  frombuffer (sys_byteorder test_host) buf ! (y * DISPLAY_WIDTH + x) = pack565 pr pg pb
                \<and> uint (frombuffer (sys_byteorder test_host) buf ! (y * DISPLAY_WIDTH + x))
                    = push_bit 8 (uint pr AND 0xF8) OR push_bit 3 (uint pg AND 0xFC)
                        OR drop_bit 3 (uint pb)
                \<and> take 2 (drop (2 * (y * DISPLAY_WIDTH + x)) buf)
                    = word_bytes (sys_byteorder test_host) (pack565 pr pg pb)"
    and solid: "\<forall>c. (\<forall>x<DISPLAY_WIDTH. \<forall>y<DISPLAY_HEIGHT.
                      resample test_host (rotate90 img) DISPLAY_WIDTH DISPLAY_HEIGHT x y = c) \<longrightarrow>
                  frombuffer (sys_byteorder test_host) buf
                    = replicate (DISPLAY_WIDTH * DISPLAY_HEIGHT) (rgb565 c)"
    by blast
  have img: "img = red_img"
    using dec red_shot_decoded by simp
  have order: "sys_byteorder test_host = little"
    by (simp add: test_host_def)
  have red: "pack565 255 0 0 = 0xF800" "rgb565 (255, 0, 0) = 0xF800"
    by (simp_all add: pack565_def rgb565_def)
  have "frombuffer little buf ! (0 * DISPLAY_WIDTH + 0) = pack565 255 0 0"
    using at [rule_format, of 0 0 255 0 0] display_positive
    by (simp add: img order red_img_sampled)
  then have first: "frombuffer little buf ! 0 = 0xF800"
    by (simp add: red)
  have "frombuffer little buf = replicate (DISPLAY_WIDTH * DISPLAY_HEIGHT) (rgb565 (255, 0, 0))"
    using solid [rule_format, of "(255, 0, 0)"]
    by (simp add: img order red_img_sampled)
  then have every: "frombuffer little buf = replicate (DISPLAY_WIDTH * DISPLAY_HEIGHT) 0xF800"
    by (simp add: red)
  show ?thesis
    using red_shot_valid buf first every by blast
qed

text \<open>
  Claim C3. The rotation swaps width and height, keeps the number of pixels, and puts
  every input pixel \<open>(x, y)\<close> at column \<open>y\<close>, row \<open>width - 1 - x\<close> of the result:
  nothing is cropped. For an image that holds width times height pixels, the result holds
  the same pixels, each as often as the input. And this rotated image is the transform's
  intermediate: for a valid raw frame of \<open>w\<close> by \<open>h\<close> the image that is resized and
  packed is the rotation of the decoded frame, \<open>h\<close> wide and \<open>w\<close> high, and every word
  of the buffer is the packed pixel the filter takes from it.
\<close>

theorem rotate90_expands:
  "width (rotate90 im) = height im \<and> height (rotate90 im) = width im
     \<and> length (pixels (rotate90 im)) = width im * height im
     \<and> (\<forall>x y. x < width im \<and> y < height im \<longrightarrow>
           getpixel (rotate90 im) y (width im - 1 - x) = getpixel im x y)
     \<and> (length (pixels im) = width im * height im \<longrightarrow>
           mset (pixels (rotate90 im)) = mset (pixels im))
     \<and> (valid_frame s \<and> shot_size s = (w, h) \<longrightarrow>
          (\<exists>img rot buf. frombytes (shot_size s) (bgra s) = Inr img
             \<and> width img = w \<and> height img = h
             \<and> rot = rotate90 img \<and> width rot = h \<and> height rot = w
             \<and> (\<forall>x<w. \<forall>y<h. getpixel rot y (w - 1 - x) = getpixel img x y)
             \<and> mset (pixels rot) = mset (pixels img)
             \<and> capture_and_process_frame hst (Inr s) = Inr buf
             \<and> frombuffer (sys_byteorder hst) buf
                 = map rgb565 (pixels (resize hst rot (DISPLAY_WIDTH, DISPLAY_HEIGHT)))
             \<and> (\<forall>x<DISPLAY_WIDTH. \<forall>y<DISPLAY_HEIGHT.
                   frombuffer (sys_byteorder hst) buf ! (y * DISPLAY_WIDTH + x)
                     = rgb565 (resample hst rot DISPLAY_WIDTH DISPLAY_HEIGHT x y))))"
proof -
  have moved: "getpixel (rotate90 im) y (width im - 1 - x) = getpixel im x y"
    if "x < width im \<and> y < height im" for x y im
    using that rotate90_pixel [of x im y] by blast
  have pipeline: "\<exists>img rot buf. frombytes (shot_size s) (bgra s) = Inr img
             \<and> width img = w \<and> height img = h
             \<and> rot = rotate90 img \<and> width rot = h \<and> height rot = w
             \<and> (\<forall>x<w. \<forall>y<h. getpixel rot y (w - 1 - x) = getpixel img x y)
             \<and> mset (pixels rot) = mset (pixels img)
             \<and> capture_and_process_frame hst (Inr s) = Inr buf
             \<and> frombuffer (sys_byteorder hst) buf
                 = map rgb565 (pixels (resize hst rot (DISPLAY_WIDTH, DISPLAY_HEIGHT)))
             \<and> (\<forall>x<DISPLAY_WIDTH. \<forall>y<DISPLAY_HEIGHT.
                   frombuffer (sys_byteorder hst) buf ! (y * DISPLAY_WIDTH + x)
                     = rgb565 (resample hst rot DISPLAY_WIDTH DISPLAY_HEIGHT x y))"
    if vs: "valid_frame s \<and> shot_size s = (w, h)"
  proof -
    from vs have v: "valid_frame s" and sz: "shot_size s = (w, h)" by blast+
    define img where "img = \<lparr>width = w, height = h, pixels = take (w * h) (unpack_BGRX (bgra s))\<rparr>"
    have dec: "frombytes (shot_size s) (bgra s) = Inr img"
      unfolding img_def by (rule decoded_valid(1) [OF v sz])
    have dims: "width img = w" "height img = h" "length (pixels img) = width img * height img"
      using decoded_valid(2) [OF v sz] by (simp_all add: img_def)
    obtain buf where buf: "capture_and_process_frame hst (Inr s) = Inr buf"
      using frame_of_valid [OF v] by blast
    have pos: "\<forall>x<w. \<forall>y<h. getpixel (rotate90 img) y (w - 1 - x) = getpixel img x y"
      using moved [of _ img] dims(1,2) by simp
    have perm: "mset (pixels (rotate90 img)) = mset (pixels img)"
      by (rule rotate90_mset [OF dims(3)])
    have words: "frombuffer (sys_byteorder hst) buf
                 = map rgb565 (pixels (resize hst (rotate90 img) (DISPLAY_WIDTH, DISPLAY_HEIGHT)))"
      by (rule pipeline_words(1) [OF dec buf])
    have at: "\<forall>x<DISPLAY_WIDTH. \<forall>y<DISPLAY_HEIGHT.
                   frombuffer (sys_byteorder hst) buf ! (y * DISPLAY_WIDTH + x)
                     = rgb565 (resample hst (rotate90 img) DISPLAY_WIDTH DISPLAY_HEIGHT x y)"
      using pipeline_word_at(1) [OF dec buf] by blast
    show ?thesis
      using dec dims(1,2) rotate90_size [of img] pos perm buf words at
      by (intro exI [of _ img] exI [of _ "rotate90 img"] exI [of _ buf]) simp
  qed
  show ?thesis
    using moved [of _ im] rotate90_size [of im] rotate90_length [of im] rotate90_mset [of im] pipeline
    by blast
qed

text \<open>The marker at the right end of a 2 by 1 frame is the top pixel of the 1 by 2
  intermediate; with the nearest-pixel filter the frame's first word is red and the first
  word of its last row is black.\<close>

theorem rotate90_expands_witness:
  "valid_frame marker_shot \<and> shot_size marker_shot = (2, 1)
     \<and> width (rotate90 marker_img) = 1 \<and> height (rotate90 marker_img) = 2
     \<and> getpixel marker_img 1 0 = (255, 0, 0)
     \<and> getpixel (rotate90 marker_img) 0 0 = (255, 0, 0)
     \<and> mset (pixels (rotate90 marker_img)) = {#(0, 0, 0), (255, 0, 0)#}
     \<and> (\<exists>buf. capture_and_process_frame test_host (Inr marker_shot) = Inr buf
           \<and> frombuffer little buf ! 0 = 0xF800
           \<and> frombuffer little buf ! (501 * DISPLAY_WIDTH) = 0)"
proof -
  note at_marker = rotate90_expands [of marker_img marker_shot 2 1 test_host]
  have facts: "width marker_img = 2" "height marker_img = 1"
    "getpixel marker_img 1 0 = (255, 0, 0)" "getpixel marker_img 0 0 = (0, 0, 0)"
    "length (pixels marker_img) = width marker_img * height marker_img"
    "mset (pixels marker_img) = {#(0, 0, 0), (255, 0, 0)#}"
    by (simp_all add: marker_img_def getpixel_def)
  have size: "width (rotate90 marker_img) = 1" "height (rotate90 marker_img) = 2"
    using at_marker facts(1,2) by simp_all
  have top: "getpixel (rotate90 marker_img) 0 (width marker_img - 1 - 1) = getpixel marker_img 1 0"
    using at_marker facts(1,2) by (metis one_less_numeral_iff semiring_norm(76) zero_less_one)
  have bottom: "getpixel (rotate90 marker_img) 0 (width marker_img - 1 - 0) = getpixel marker_img 0 0"
    using at_marker facts(1,2) by (metis zero_less_numeral zero_less_one)
  have perm: "mset (pixels (rotate90 marker_img)) = {#(0, 0, 0), (255, 0, 0)#}"
    using at_marker facts(5,6) by simp
  from at_marker marker_shot_valid
  obtain img rot buf where dec: "frombytes (shot_size marker_shot) (bgra marker_shot) = Inr img"
    and rot: "rot = rotate90 img"
    and buf: "capture_and_process_frame test_host (Inr marker_shot) = Inr buf"
    and at: "\<forall>x<DISPLAY_WIDTH. \<forall>y<DISPLAY_HEIGHT.
                frombuffer (sys_byteorder test_host) buf ! (y * DISPLAY_WIDTH + x)
                  = rgb565 (resample test_host rot DISPLAY_WIDTH DISPLAY_HEIGHT x y)"
    by blast
  have img: "img = marker_img"
    using dec marker_shot_decoded by simp
  have order: "sys_byteorder test_host = little" "resample test_host = nearest"
    by (simp_all add: test_host_def)
  have px: "getpixel (rotate90 marker_img) 0 0 = (255, 0, 0)"
    "getpixel (rotate90 marker_img) 0 (Suc 0) = (0, 0, 0)"
    using top bottom facts by simp_all
  have "frombuffer little buf ! (0 * DISPLAY_WIDTH + 0) = rgb565 (255, 0, 0)"
    using at [rule_format, of 0 0] display_positive
    by (simp add: rot img order nearest_def size px)
  then have first: "frombuffer little buf ! 0 = 0xF800"
    by (simp add: rgb565_def pack565_def)
  have "(501::nat) < DISPLAY_HEIGHT" "(501 * 2) div DISPLAY_HEIGHT = (1::nat)"
    by (simp_all add: DISPLAY_HEIGHT_def)
  then have "frombuffer little buf ! (501 * DISPLAY_WIDTH + 0) = rgb565 (0, 0, 0)"
    using at [rule_format, of 0 501] display_positive
    by (simp add: rot img order nearest_def size px)
  then have last: "frombuffer little buf ! (501 * DISPLAY_WIDTH) = 0"
    by (simp add: rgb565_def pack565_def)
  show ?thesis
    using marker_shot_valid size facts(3) px(1) perm buf first last by blast
qed

text \<open>
  Claim C4. For every valid raw frame the decoder drops the fourth byte of each pixel and
  swaps blue and red: pixel \<open>i\<close> of the image is (byte \<open>4i+2\<close>, byte \<open>4i+1\<close>, byte \<open>4i\<close>)
  of the grabber's blue-green-red-pad buffer. Changing pad bytes changes neither the image
  nor the frame. The packing of the transform takes its operands in this order from the
  rotated, resized image; so whenever the filter returns pixels of its source, every word
  of the buffer is \<open>pack565\<close> of the red, the green and the blue byte of one captured pixel.
\<close>

theorem frombytes_BGRX_to_RGB:
  assumes "valid_frame s" "shot_size s = (w, h)"
  shows "\<exists>img. frombytes (shot_size s) (bgra s) = Inr img
          \<and> width img = w \<and> height img = h \<and> length (pixels img) = w * h
          \<and> (\<forall>i<w * h.
                 pixels img ! i = (bgra s ! (4 * i + 2), bgra s ! (4 * i + 1), bgra s ! (4 * i))
               \<and> rgb565 (pixels img ! i)
                   = pack565 (bgra s ! (4 * i + 2)) (bgra s ! (4 * i + 1)) (bgra s ! (4 * i)))
          \<and> (\<forall>d. length d = length (bgra s) \<and> (\<forall>j<length d. j mod 4 \<noteq> 3 \<longrightarrow> d ! j = bgra s ! j)
                 \<longrightarrow> frombytes (shot_size s) d = Inr img
                   \<and> capture_and_process_frame hst (Inr (s\<lparr>bgra := d\<rparr>))
                       = capture_and_process_frame hst (Inr s))
          \<and> (\<exists>buf. capture_and_process_frame hst (Inr s) = Inr buf
                \<and> (\<forall>x<DISPLAY_WIDTH. \<forall>y<DISPLAY_HEIGHT. \<forall>pr pg pb.
                      resample hst (rotate90 img) DISPLAY_WIDTH DISPLAY_HEIGHT x y = (pr, pg, pb) \<longrightarrow>
                        frombuffer (sys_byteorder hst) buf ! (y * DISPLAY_WIDTH + x) = pack565 pr pg pb)
                \<and> ((\<forall>x<DISPLAY_WIDTH. \<forall>y<DISPLAY_HEIGHT.
                        resample hst (rotate90 img) DISPLAY_WIDTH DISPLAY_HEIGHT x y
                          \<in> set (pixels (rotate90 img))) \<longrightarrow>
                     (\<forall>n<DISPLAY_WIDTH * DISPLAY_HEIGHT. \<exists>j<w * h.
                        frombuffer (sys_byteorder hst) buf ! n
                          = pack565 (bgra s ! (4 * j + 2)) (bgra s ! (4 * j + 1)) (bgra s ! (4 * j)))))"
proof -
  from assms have wh: "0 < w" "0 < h" and len: "length (bgra s) = 4 * (w * h)"
    by (simp_all add: valid_frame_def)
  define img where "img = \<lparr>width = w, height = h, pixels = take (w * h) (unpack_BGRX (bgra s))\<rparr>"
  have dec: "frombytes (shot_size s) (bgra s) = Inr img"
    using wh len by (simp add: assms(2) img_def frombytes_decodes)
  have size: "width img = w" "height img = h" "length (pixels img) = w * h"
    using len by (simp_all add: img_def length_unpack_BGRX)
  have px: "pixels img ! i = (bgra s ! (4 * i + 2), bgra s ! (4 * i + 1), bgra s ! (4 * i))"
    if "i < w * h" for i
    using that len by (simp add: img_def nth_unpack_BGRX)
  have pad: "frombytes (shot_size s) d = Inr img
      \<and> capture_and_process_frame hst (Inr (s\<lparr>bgra := d\<rparr>)) = capture_and_process_frame hst (Inr s)"
    if "length d = length (bgra s) \<and> (\<forall>j<length d. j mod 4 \<noteq> 3 \<longrightarrow> d ! j = bgra s ! j)" for d
  proof -
    have "frombytes (shot_size s) d = frombytes (shot_size s) (bgra s)"
      using that by (intro frombytes_pad) simp_all
    then show ?thesis
      by (simp add: dec capture_and_process_frame_def)
  qed
  obtain buf where buf: "capture_and_process_frame hst (Inr s) = Inr buf"
    using frame_of_valid [OF assms(1)] by blast
  have at: "frombuffer (sys_byteorder hst) buf ! (y * DISPLAY_WIDTH + x) = pack565 pr pg pb"
    if "x < DISPLAY_WIDTH" "y < DISPLAY_HEIGHT"
      "resample hst (rotate90 img) DISPLAY_WIDTH DISPLAY_HEIGHT x y = (pr, pg, pb)" for x y pr pg pb
    using pipeline_word_at(1) [OF dec buf that(1,2)] that(3) by (simp add: rgb565_def)
  have sampled: "\<exists>j<w * h. frombuffer (sys_byteorder hst) buf ! n
                  = pack565 (bgra s ! (4 * j + 2)) (bgra s ! (4 * j + 1)) (bgra s ! (4 * j))"
    if picks: "\<forall>x<DISPLAY_WIDTH. \<forall>y<DISPLAY_HEIGHT.
                 resample hst (rotate90 img) DISPLAY_WIDTH DISPLAY_HEIGHT x y \<in> set (pixels (rotate90 img))"
      and n: "n < DISPLAY_WIDTH * DISPLAY_HEIGHT" for n
  proof -
    let ?x = "n mod DISPLAY_WIDTH" and ?y = "n div DISPLAY_WIDTH"
    note xy = grid_index_split [OF n]
    let ?p = "resample hst (rotate90 img) DISPLAY_WIDTH DISPLAY_HEIGHT ?x ?y"
    have word: "frombuffer (sys_byteorder hst) buf ! n = rgb565 ?p"
      using pipeline_word_at(1) [OF dec buf xy(1,2)] xy(3) by simp
    have "?p \<in> set (pixels (rotate90 img))"
      using picks xy(1,2) by blast
    then have "?p \<in> set (pixels img)"
      using rotate90_set [of img] size by simp
    then obtain j where j: "j < w * h" "pixels img ! j = ?p"
      using size(3) by (auto simp: in_set_conv_nth)
    have "rgb565 ?p = pack565 (bgra s ! (4 * j + 2)) (bgra s ! (4 * j + 1)) (bgra s ! (4 * j))"
      using px [OF j(1)] j(2) by (simp add: rgb565_def)
    with word j(1) show ?thesis by auto
  qed
  have pipeline: "\<exists>buf. capture_and_process_frame hst (Inr s) = Inr buf
                \<and> (\<forall>x<DISPLAY_WIDTH. \<forall>y<DISPLAY_HEIGHT. \<forall>pr pg pb.
                      resample hst (rotate90 img) DISPLAY_WIDTH DISPLAY_HEIGHT x y = (pr, pg, pb) \<longrightarrow>
                        frombuffer (sys_byteorder hst) buf ! (y * DISPLAY_WIDTH + x) = pack565 pr pg pb)
                \<and> ((\<forall>x<DISPLAY_WIDTH. \<forall>y<DISPLAY_HEIGHT.
                        resample hst (rotate90 img) DISPLAY_WIDTH DISPLAY_HEIGHT x y
                          \<in> set (pixels (rotate90 img))) \<longrightarrow>
                     (\<forall>n<DISPLAY_WIDTH * DISPLAY_HEIGHT. \<exists>j<w * h.
                        frombuffer (sys_byteorder hst) buf ! n
                          = pack565 (bgra s ! (4 * j + 2)) (bgra s ! (4 * j + 1)) (bgra s ! (4 * j))))"
    using buf at sampled by (intro exI [of _ buf]) blast
  show ?thesis
    using dec size px pad pipeline by (intro exI [of _ img]) (simp add: rgb565_def)
qed

text \<open>The red screenshot, bytes 0, 0, 255, 255, decodes to the pixel (255, 0, 0), which
  packs to \<open>0xF800\<close>, and so does the first word of its frame.\<close>

theorem frombytes_BGRX_to_RGB_witness:
  "valid_frame red_shot \<and> shot_size red_shot = (1, 1)
     \<and> (\<exists>img. frombytes (1, 1) [0, 0, 255, 255] = Inr img
           \<and> pixels img ! 0 = (255, 0, 0) \<and> rgb565 (pixels img ! 0) = 0xF800)
     \<and> (\<exists>buf. capture_and_process_frame test_host (Inr red_shot) = Inr buf
           \<and> frombuffer little buf ! 0 = 0xF800)"
proof -
  have v: "valid_frame red_shot" and sz: "shot_size red_shot = (1, 1)"
    by (simp_all add: valid_frame_def red_shot_def)
  from frombytes_BGRX_to_RGB [OF v sz, of test_host]
  obtain img buf where dec: "frombytes (shot_size red_shot) (bgra red_shot) = Inr img"
    and px: "\<forall>i<1 * 1. pixels img ! i = (bgra red_shot ! (4 * i + 2), bgra red_shot ! (4 * i + 1), bgra red_shot ! (4 * i))
        \<and> rgb565 (pixels img ! i)
             = pack565 (bgra red_shot ! (4 * i + 2)) (bgra red_shot ! (4 * i + 1)) (bgra red_shot ! (4 * i))"
    and buf: "capture_and_process_frame test_host (Inr red_shot) = Inr buf"
    and at: "\<forall>x<DISPLAY_WIDTH. \<forall>y<DISPLAY_HEIGHT. \<forall>pr pg pb.
                resample test_host (rotate90 img) DISPLAY_WIDTH DISPLAY_HEIGHT x y = (pr, pg, pb) \<longrightarrow>
                  frombuffer (sys_byteorder test_host) buf ! (y * DISPLAY_WIDTH + x) = pack565 pr pg pb"
    by blast
  have decoded: "frombytes (1, 1) [0, 0, 255, 255] = Inr img \<and> pixels img ! 0 = (255, 0, 0)
      \<and> rgb565 (pixels img ! 0) = 0xF800"
    using dec px by (simp add: red_shot_def pack565_def rgb565_def)
  have img: "img = red_img"
    using dec red_shot_decoded by simp
  have order: "sys_byteorder test_host = little"
    by (simp add: test_host_def)
  have "frombuffer little buf ! (0 * DISPLAY_WIDTH + 0) = pack565 255 0 0"
    using at [rule_format, of 0 0 255 0 0] display_positive
    by (simp add: img red_img_sampled order)
  then have "frombuffer little buf ! 0 = 0xF800"
    by (simp add: pack565_def)
  with v sz decoded buf show ?thesis by blast
qed

text \<open>
  Claim C10. Channels that agree on the top five bits of red, the top six of green and
  the top five of blue pack to the same word: the low bits never reach the output.
\<close>

theorem pack565_low_bits:
  assumes "drop_bit 3 r = drop_bit 3 r'" "drop_bit 2 g = drop_bit 2 g'" "drop_bit 3 b = drop_bit 3 b'"
  shows "pack565 r g b = pack565 r' g' b'"
  using assms by (simp add: pack565_fields)

text \<open>White and the colour with all discarded bits cleared pack alike.\<close>

theorem pack565_low_bits_witness:
  "drop_bit 3 (255 :: uint8) = drop_bit 3 (248 :: uint8) \<and> drop_bit 2 (255 :: uint8) = drop_bit 2 (252 :: uint8)
     \<and> drop_bit 3 (7 :: uint8) = drop_bit 3 (0 :: uint8) \<and> pack565 255 255 7 = pack565 248 252 0"
proof -
  have h: "drop_bit 3 (255 :: uint8) = drop_bit 3 (248 :: uint8)"
     "drop_bit 2 (255 :: uint8) = drop_bit 2 (252 :: uint8)"
     "drop_bit 3 (7 :: uint8) = drop_bit 3 (0 :: uint8)"
    by (simp_all add: drop_bit_eq_div)
  show ?thesis
    using h pack565_low_bits [OF h] by simp
qed

section \<open>Properties of the session\<close>

text \<open>
  Claim C5. For every \<open>N \<ge> 1\<close>: when the first \<open>N - 1\<close> turns of the loop complete and
  the capture of turn \<open>N\<close> raises an \<^verbatim>\<open>Exception\<close> of the grabber, the handler returns
  without raising; exactly \<open>N - 1\<close> frames were sent, each of the full 411640 bytes; the
  capture was attempted \<open>N\<close> times and not again; and closing the grabber is the last
  thing the session did.
\<close>

theorem capture_failure_closes_session:
  assumes "1 \<le> N"
    and "mss_open cx = None"
    and "\<forall>j<N - 1. fst (iteration hst cx j) = None"
    and "grab cx (N - 1) = Inl (Exception c)"
  shows "\<exists>s. handler hst cx = Some s \<and> raised s = None
          \<and> trace s = [Print_connected, Mss_enter] @ turns hst cx 0 (N - 1)
                @ [Grab, Print_unexpected, Print_closed, Mss_exit]
          \<and> length (frames_sent (trace s)) = N - 1
          \<and> (\<forall>f \<in> set (frames_sent (trace s)). length f = 411640)
          \<and> grabs (trace s) = N
          \<and> released (trace s)"
proof -
  from assms(1) obtain n where N: "N = Suc n" by (cases N) simp_all
  have it: "iteration hst cx n = (Some (Exception c), [Grab])"
    using assms(4) by (simp add: N iteration_def capture_and_process_frame_def)
  have completes: "\<forall>j<n. fst (iteration hst cx j) = None"
    using assms(3) by (simp add: N)
  have fails: "fst (iteration hst cx n) = Some (Exception c)"
    by (simp add: it)
  from session_summary [OF assms(2) completes fails] obtain s where s: "handler hst cx = Some s"
    "raised s = (if is_Exception (Exception c) then None else Some (Exception c))"
    "trace s = [Print_connected, Mss_enter] @ turns hst cx 0 n @ snd (iteration hst cx n)
                @ (if Exception c = ConnectionClosed then [Print_disconnected, Print_closed, Mss_exit]
                   else if is_Exception (Exception c) then [Print_unexpected, Print_closed, Mss_exit]
                   else [Print_closed, Mss_exit])"
    "frames_sent (trace s) =
                map (\<lambda>j. projr (capture_and_process_frame hst (grab cx j))) [0..<n]
                  @ frames_sent (snd (iteration hst cx n))"
    "\<forall>f \<in> set (frames_sent (trace s)). length f = 411640"
    "grabs (trace s) = Suc n"
    "released (trace s)"
    by blast
  have "length (frames_sent (trace s)) = n"
    by (simp add: s(4) it)
  moreover have "trace s = [Print_connected, Mss_enter] @ turns hst cx 0 n
                @ [Grab, Print_unexpected, Print_closed, Mss_exit]"
    by (simp add: s(3) it)
  ultimately show ?thesis
    using s(1,2,5,6,7) by (intro exI [of _ s]) (simp add: N)
qed

text \<open>The grabber fails on the third turn: two frames sent, three captures.\<close>

theorem capture_failure_closes_session_witness:
  "\<exists>s. handler test_host (capture_fails_at 2) = Some s \<and> raised s = None
      \<and> length (frames_sent (trace s)) = 2
      \<and> (\<forall>f \<in> set (frames_sent (trace s)). length f = 411640)
      \<and> grabs (trace s) = 3 \<and> released (trace s)"
proof -
  have a: "(1::nat) \<le> 3" by simp
  have b: "mss_open (capture_fails_at 2) = None"
    by (simp add: capture_fails_at_def)
  have c: "\<forall>j<3 - 1. fst (iteration test_host (capture_fails_at 2) j) = None"
    by (auto intro!: red_turn_completes simp: capture_fails_at_def)
  have d: "grab (capture_fails_at 2) (3 - 1) = Inl (Exception ''ScreenShotError'')"
    by (simp add: capture_fails_at_def)
  show ?thesis
    using capture_failure_closes_session [OF a b c d] by auto
qed

text \<open>
  Claim C6 says that the server can accept a new connection however the previous session
  ended. A session ended by \<^verbatim>\<open>KeyboardInterrupt\<close> takes the server with it: the
  connection after it is never served.
\<close>

theorem server_stops_on_interrupt:
  "serve test_host [interrupted, peer_gone_at 0] =
     [Some \<lparr>trace = [Print_connected, Mss_enter, Grab, Print_closed, Mss_exit],
            raised = Some KeyboardInterrupt\<rparr>]"
proof -
  have a: "mss_open interrupted = None"
    by (simp add: interrupted_def)
  have b: "\<forall>j<0. fst (iteration test_host interrupted j) = None"
    by simp
  have it: "iteration test_host interrupted 0 = (Some KeyboardInterrupt, [Grab])"
    by (simp add: iteration_def capture_and_process_frame_def interrupted_def)
  then have c: "fst (iteration test_host interrupted 0) = Some KeyboardInterrupt"
    by simp
  have "handler test_host interrupted =
     Some \<lparr>trace = [Print_connected, Mss_enter, Grab, Print_closed, Mss_exit],
           raised = Some KeyboardInterrupt\<rparr>"
    using handler_first_failure [OF a b c] by (simp add: it turns_0)
  then show ?thesis by (simp add: peer_gone_at_def)
qed

text \<open>
  Claim C6, amended. When a send raises \<^verbatim>\<open>ConnectionClosed\<close>, or any other
  \<^verbatim>\<open>Exception\<close>, after any number of completed turns, the handler returns without
  raising, having delivered the frames of the completed turns only and closed the grabber.
  The server serves that connection and goes on to the next ones after any earlier
  sessions that still run, returned or raised an \<^verbatim>\<open>Exception\<close>. A session ends
  the server exactly when the exception that ends its loop is not an \<^verbatim>\<open>Exception\<close>
  (\<^verbatim>\<open>KeyboardInterrupt\<close>, \<^verbatim>\<open>SystemExit\<close>): it is the last one served.
\<close>

theorem peer_disconnect_closes_session:
  assumes "mss_open cx = None"
    and "\<forall>j<k. fst (iteration hst cx j) = None"
    and "capture_and_process_frame hst (grab cx k) = Inr frame"
    and "send cx k = Some e"
    and "is_Exception e"
  shows "\<exists>s. handler hst cx = Some s \<and> raised s = None
          \<and> trace s = [Print_connected, Mss_enter] @ turns hst cx 0 k @ [Grab, Send_raised]
                @ (if e = ConnectionClosed then [Print_disconnected, Print_closed, Mss_exit]
                   else [Print_unexpected, Print_closed, Mss_exit])
          \<and> length (frames_sent (trace s)) = k
          \<and> (\<forall>f \<in> set (frames_sent (trace s)). length f = 411640)
          \<and> released (trace s)
          \<and> \<not> killed hst cx
          \<and> serve hst (cx # rest) = Some s # serve hst rest
          \<and> ((\<forall>c \<in> set before. \<not> killed hst c) \<longrightarrow>
                serve hst (before @ cx # rest) = map (handler hst) before @ Some s # serve hst rest)
          \<and> ((\<forall>c \<in> set before. \<not> killed hst c) \<and> killed hst other \<longrightarrow>
                serve hst (before @ other # cx # rest) = map (handler hst) before @ [handler hst other])
          \<and> (\<forall>c n x. mss_open c = None \<and> (\<forall>j<n. fst (iteration hst c j) = None)
                  \<and> fst (iteration hst c n) = Some x \<longrightarrow>
                (killed hst c \<longleftrightarrow> \<not> is_Exception x))
          \<and> (\<forall>c. handler hst c = None \<longrightarrow> \<not> killed hst c)"
proof -
  have it: "iteration hst cx k = (Some e, [Grab, Send_raised])"
    using assms(3,4) by (rule iteration_send_raises)
  then have fails: "fst (iteration hst cx k) = Some e" by simp
  from session_summary [OF assms(1,2) fails] obtain s where s: "handler hst cx = Some s"
    "raised s = (if is_Exception e then None else Some e)"
    "trace s = [Print_connected, Mss_enter] @ turns hst cx 0 k @ snd (iteration hst cx k)
                @ (if e = ConnectionClosed then [Print_disconnected, Print_closed, Mss_exit]
                   else if is_Exception e then [Print_unexpected, Print_closed, Mss_exit]
                   else [Print_closed, Mss_exit])"
    "frames_sent (trace s) =
                map (\<lambda>j. projr (capture_and_process_frame hst (grab cx j))) [0..<k]
                  @ frames_sent (snd (iteration hst cx k))"
    "\<forall>f \<in> set (frames_sent (trace s)). length f = 411640"
    "grabs (trace s) = Suc k"
    "released (trace s)"
    by blast
  have r: "raised s = None"
    using s(2) assms(5) by simp
  have sent: "length (frames_sent (trace s)) = k"
    by (simp add: s(4) it)
  have tr: "trace s = [Print_connected, Mss_enter] @ turns hst cx 0 k @ [Grab, Send_raised]
                @ (if e = ConnectionClosed then [Print_disconnected, Print_closed, Mss_exit]
                   else [Print_unexpected, Print_closed, Mss_exit])"
    using assms(5) by (simp add: s(3) it)
  have alive: "\<not> killed hst cx"
    by (rule exception_not_killed [OF assms(1,2) fails assms(5)])
  have next_one: "serve hst (cx # rest) = Some s # serve hst rest"
    using serve_not_killed [OF alive, of rest] by (simp add: s(1) del: serve.simps)
  have after_any: "serve hst (before @ cx # rest) = map (handler hst) before @ Some s # serve hst rest"
    if "\<forall>c \<in> set before. \<not> killed hst c"
    using serve_through [OF that, of "cx # rest"] by (simp add: next_one del: serve.simps)
  have stops: "serve hst (before @ other # cx # rest) = map (handler hst) before @ [handler hst other]"
    if "(\<forall>c \<in> set before. \<not> killed hst c) \<and> killed hst other"
  proof -
    from that have b: "\<forall>c \<in> set before. \<not> killed hst c" and o: "killed hst other" by blast+
    show ?thesis
      using serve_through [OF b, of "other # cx # rest"] serve_killed [OF o, of "cx # rest"]
      by (simp del: serve.simps)
  qed
  have by_class: "killed hst c \<longleftrightarrow> \<not> is_Exception x"
    if "mss_open c = None \<and> (\<forall>j<n. fst (iteration hst c j) = None)
          \<and> fst (iteration hst c n) = Some x" for c n x
  proof -
    from that have a: "mss_open c = None" and b: "\<forall>j<n. fst (iteration hst c j) = None"
      and f: "fst (iteration hst c n) = Some x" by blast+
    show ?thesis
      using handler_first_failure [OF a b f] by (cases x) (simp_all add: killed_def)
  qed
  have running: "\<not> killed hst c" if "handler hst c = None" for c
    using that by (simp add: killed_def)
  show ?thesis
  proof (intro exI [of _ s] conjI)
    show "handler hst cx = Some s" by (rule s(1))
    show "raised s = None" by (rule r)
    show "trace s = [Print_connected, Mss_enter] @ turns hst cx 0 k @ [Grab, Send_raised]
                @ (if e = ConnectionClosed then [Print_disconnected, Print_closed, Mss_exit]
                   else [Print_unexpected, Print_closed, Mss_exit])" by (rule tr)
    show "length (frames_sent (trace s)) = k" by (rule sent)
    show "\<forall>f \<in> set (frames_sent (trace s)). length f = 411640" by (rule s(5))
    show "released (trace s)" by (rule s(7))
    show "\<not> killed hst cx" by (rule alive)
    show "serve hst (cx # rest) = Some s # serve hst rest" by (rule next_one)
    show "(\<forall>c \<in> set before. \<not> killed hst c) \<longrightarrow>
                serve hst (before @ cx # rest) = map (handler hst) before @ Some s # serve hst rest"
      using after_any by blast
    show "(\<forall>c \<in> set before. \<not> killed hst c) \<and> killed hst other \<longrightarrow>
                serve hst (before @ other # cx # rest) = map (handler hst) before @ [handler hst other]"
      using stops by blast
    show "\<forall>c n x. mss_open c = None \<and> (\<forall>j<n. fst (iteration hst c j) = None)
                  \<and> fst (iteration hst c n) = Some x \<longrightarrow>
                (killed hst c \<longleftrightarrow> \<not> is_Exception x)"
      using by_class by blast
    show "\<forall>c. handler hst c = None \<longrightarrow> \<not> killed hst c"
      using running by blast
  qed
qed

text \<open>A session ended by a grabber error, then one whose peer leaves during the second
  send, then a third connection: all three are served.\<close>

theorem peer_disconnect_closes_session_witness:
  "\<exists>s. handler test_host (peer_gone_at 1) = Some s \<and> raised s = None
      \<and> length (frames_sent (trace s)) = 1 \<and> released (trace s)
      \<and> serve test_host [capture_fails_at 0, peer_gone_at 1, capture_fails_at 1]
           = [handler test_host (capture_fails_at 0), Some s]
               @ serve test_host [capture_fails_at 1]"
proof -
  have a: "mss_open (peer_gone_at 1) = None"
    by (simp add: peer_gone_at_def)
  have b: "\<forall>j<1. fst (iteration test_host (peer_gone_at 1) j) = None"
    by (auto intro!: red_turn_completes simp: peer_gone_at_def)
  have v: "valid_frame red_shot"
    by (simp add: valid_frame_def red_shot_def)
  obtain buf where c: "capture_and_process_frame test_host (grab (peer_gone_at 1) 1) = Inr buf"
    using frame_of_valid [OF v, of test_host] by (auto simp: peer_gone_at_def)
  have d: "send (peer_gone_at 1) 1 = Some ConnectionClosed"
    by (simp add: peer_gone_at_def)
  have e: "is_Exception ConnectionClosed" by simp
  have f: "fst (iteration test_host (capture_fails_at 0) 0) = Some (Exception ''ScreenShotError'')"
    by (simp add: capture_fails_at_def iteration_def capture_and_process_frame_def)
  have o: "mss_open (capture_fails_at 0) = None"
    by (simp add: capture_fails_at_def)
  have n: "\<forall>j<0. fst (iteration test_host (capture_fails_at 0) j) = None"
    by simp
  have x: "is_Exception (Exception ''ScreenShotError'')"
    by simp
  have "\<not> killed test_host (capture_fails_at 0)"
    by (rule exception_not_killed [OF o n f x])
  then have before: "\<forall>c \<in> set [capture_fails_at 0]. \<not> killed test_host c"
    by simp
  from peer_disconnect_closes_session [OF a b c d e,
      of "[capture_fails_at 1]" "[capture_fails_at 0]"]
  obtain s where s: "handler test_host (peer_gone_at 1) = Some s" "raised s = None"
    "length (frames_sent (trace s)) = 1" "released (trace s)"
    "(\<forall>c \<in> set [capture_fails_at 0]. \<not> killed test_host c) \<longrightarrow>
        serve test_host ([capture_fails_at 0] @ peer_gone_at 1 # [capture_fails_at 1])
          = map (handler test_host) [capture_fails_at 0] @ Some s # serve test_host [capture_fails_at 1]"
    by blast
  from s(5) before
  have "serve test_host [capture_fails_at 0, peer_gone_at 1, capture_fails_at 1]
           = [handler test_host (capture_fails_at 0), Some s] @ serve test_host [capture_fails_at 1]"
    by (simp del: serve.simps)
  with s(1-4) show ?thesis by blast
qed

text \<open>
  Claim C7 says that every malformed or zero-sized raw frame makes the transform fail.
  It does not: a screenshot of size zero and one with a surplus byte both come back as a
  full-length buffer.
\<close>

theorem invalid_frame_not_rejected:
  "\<not> isl (capture_and_process_frame test_host (Inr empty_shot))
     \<and> length (projr (capture_and_process_frame test_host (Inr empty_shot))) = 411640
     \<and> \<not> isl (capture_and_process_frame test_host (Inr long_shot))
     \<and> length (projr (capture_and_process_frame test_host (Inr long_shot))) = 411640"
proof -
  have "shot_size empty_shot = (0, 0)" "shot_size long_shot = (1, 1)" "length (bgra long_shot) = 5"
    by (simp_all add: empty_shot_def long_shot_def)
  then have e: "\<not> isl (capture_and_process_frame test_host (Inr empty_shot))"
    and l: "\<not> isl (capture_and_process_frame test_host (Inr long_shot))"
    using transform_fails_iff [of empty_shot 0 0 test_host]
      transform_fails_iff [of long_shot 1 1 test_host] by simp_all
  from e obtain b1 where b1: "capture_and_process_frame test_host (Inr empty_shot) = Inr b1"
    by (cases "capture_and_process_frame test_host (Inr empty_shot)") simp_all
  from l obtain b2 where b2: "capture_and_process_frame test_host (Inr long_shot) = Inr b2"
    by (cases "capture_and_process_frame test_host (Inr long_shot)") simp_all
  show ?thesis
    using e l frame_length [OF b1] frame_length [OF b2] by (simp add: b1 b2 frame_bytes)
qed

text \<open>
  Claim C7, amended. The transform fails on a screenshot exactly when its dimensions are
  non-zero and its buffer has fewer than \<open>4 * w * h\<close> bytes; it then fails with the imaging
  library's \<^verbatim>\<open>ValueError\<close>, and otherwise returns 411640 bytes. When such a
  screenshot arrives in turn \<open>n\<close> of a session, the failure reaches the handler: the
  session ends without raising, nothing was sent for that turn (the frames sent are the
  \<open>n\<close> full frames of the earlier turns) and the grabber is closed.
\<close>

theorem short_frame_fails:
  assumes "shot_size s = (w, h)"
  shows "(isl (capture_and_process_frame hst (Inr s))
            \<longleftrightarrow> 0 < w \<and> 0 < h \<and> length (bgra s) < 4 * (w * h))
     \<and> (isl (capture_and_process_frame hst (Inr s))
            \<longrightarrow> capture_and_process_frame hst (Inr s) = Inl (Exception ''ValueError''))
     \<and> (\<not> isl (capture_and_process_frame hst (Inr s))
            \<longrightarrow> length (projr (capture_and_process_frame hst (Inr s))) = 411640)
     \<and> (isl (capture_and_process_frame hst (Inr s)) \<and> mss_open cx = None
          \<and> (\<forall>j<n. fst (iteration hst cx j) = None) \<and> grab cx n = Inr s
            \<longrightarrow> (\<exists>st. handler hst cx = Some st \<and> raised st = None
                   \<and> trace st = [Print_connected, Mss_enter] @ turns hst cx 0 n
                        @ [Grab, Print_unexpected, Print_closed, Mss_exit]
                   \<and> length (frames_sent (trace st)) = n
                   \<and> (\<forall>f \<in> set (frames_sent (trace st)). length f = 411640)
                   \<and> released (trace st)))"
proof -
  have iff: "isl (capture_and_process_frame hst (Inr s))
            \<longleftrightarrow> 0 < w \<and> 0 < h \<and> length (bgra s) < 4 * (w * h)"
    by (rule transform_fails_iff [OF assms])
  have err: "capture_and_process_frame hst (Inr s) = Inl (Exception ''ValueError'')"
    if "isl (capture_and_process_frame hst (Inr s))"
    using that iff transform_short [OF assms] by blast
  have full: "length (projr (capture_and_process_frame hst (Inr s))) = 411640"
    if "\<not> isl (capture_and_process_frame hst (Inr s))"
  proof -
    from that obtain buf where buf: "capture_and_process_frame hst (Inr s) = Inr buf"
      by (cases "capture_and_process_frame hst (Inr s)") simp_all
    show ?thesis
      using frame_length [OF buf] by (simp add: buf frame_bytes)
  qed
  have sess: "\<exists>st. handler hst cx = Some st \<and> raised st = None
                   \<and> trace st = [Print_connected, Mss_enter] @ turns hst cx 0 n
                        @ [Grab, Print_unexpected, Print_closed, Mss_exit]
                   \<and> length (frames_sent (trace st)) = n
                   \<and> (\<forall>f \<in> set (frames_sent (trace st)). length f = 411640)
                   \<and> released (trace st)"
    if h: "isl (capture_and_process_frame hst (Inr s)) \<and> mss_open cx = None
          \<and> (\<forall>j<n. fst (iteration hst cx j) = None) \<and> grab cx n = Inr s"
  proof -
    have it: "iteration hst cx n = (Some (Exception ''ValueError''), [Grab])"
      using h err by (simp add: iteration_capture_raises)
    then have fails: "fst (iteration hst cx n) = Some (Exception ''ValueError'')" by simp
    from h have open_ok: "mss_open cx = None" and completes: "\<forall>j<n. fst (iteration hst cx j) = None"
      by blast+
    from session_summary [OF open_ok completes fails] obtain st where st: "handler hst cx = Some st"
      "raised st = (if is_Exception (Exception ''ValueError'') then None
                    else Some (Exception ''ValueError''))"
      "trace st = [Print_connected, Mss_enter] @ turns hst cx 0 n @ snd (iteration hst cx n)
                @ (if Exception ''ValueError'' = ConnectionClosed
                   then [Print_disconnected, Print_closed, Mss_exit]
                   else if is_Exception (Exception ''ValueError'')
                   then [Print_unexpected, Print_closed, Mss_exit]
                   else [Print_closed, Mss_exit])"
      "frames_sent (trace st) =
                map (\<lambda>j. projr (capture_and_process_frame hst (grab cx j))) [0..<n]
                  @ frames_sent (snd (iteration hst cx n))"
      "\<forall>f \<in> set (frames_sent (trace st)). length f = 411640"
      "released (trace st)"
      by blast
    have "length (frames_sent (trace st)) = n"
      by (simp add: st(4) it)
    moreover have "trace st = [Print_connected, Mss_enter] @ turns hst cx 0 n
                        @ [Grab, Print_unexpected, Print_closed, Mss_exit]"
      by (simp add: st(3) it)
    ultimately show ?thesis
      using st(1,2,5,6) by (intro exI [of _ st]) simp
  qed
  show ?thesis
    using iff err full sess by blast
qed

text \<open>A two-pixel screenshot with the bytes of one pixel, arriving in the second turn.\<close>

theorem short_frame_fails_witness:
  "capture_and_process_frame test_host (Inr short_shot) = Inl (Exception ''ValueError'')
     \<and> (\<exists>st. handler test_host (short_frame_at 1) = Some st \<and> raised st = None
           \<and> length (frames_sent (trace st)) = 1 \<and> released (trace st))"
proof -
  have sz: "shot_size short_shot = (2, 1)"
    by (simp add: short_shot_def)
  note at_short = short_frame_fails [OF sz, of test_host "short_frame_at 1" 1]
  have fails: "isl (capture_and_process_frame test_host (Inr short_shot))"
    using at_short by (simp add: short_shot_def)
  have env: "mss_open (short_frame_at 1) = None
      \<and> (\<forall>j<1. fst (iteration test_host (short_frame_at 1) j) = None)
      \<and> grab (short_frame_at 1) 1 = Inr short_shot"
    by (auto intro!: red_turn_completes simp: short_frame_at_def)
  show ?thesis
    using at_short fails env by auto
qed

text \<open>
  Claim C8. Every turn of the loop captures, then sends the transform of what it captured,
  then sleeps; a turn that raises stops at that point of this order. The sleep is always
  \<open>1 / TARGET_FPS\<close>, a twentieth of a second, whatever the capture and the send took. So
  on any clock where no action takes negative time and a sleep takes at least its delay,
  a completed turn takes at least the interval plus its capture and its send, and \<open>n\<close>
  completed turns, which send \<open>n\<close> frames, take at least \<open>n / TARGET_FPS\<close>.
\<close>

theorem turn_order_and_rate:
  assumes "\<forall>j<n. fst (iteration hst cx j) = None"
    and "timing dur"
  shows "turns hst cx 0 n =
           concat (map (\<lambda>j. [Grab, Send (projr (capture_and_process_frame hst (grab cx j))),
                              Sleep (1 / of_nat TARGET_FPS)]) [0..<n])
     \<and> stream_loop hst cx 0 acc = stream_loop hst cx n (acc @ turns hst cx 0 n)
     \<and> (1 / of_nat TARGET_FPS :: rat) = 1 / 20
     \<and> length (frames_sent (turns hst cx 0 n)) = n
     \<and> of_nat n * (1 / of_nat TARGET_FPS) \<le> elapsed dur (turns hst cx 0 n)
     \<and> (\<forall>j<n. 1 / of_nat TARGET_FPS + dur Grab
                  + dur (Send (projr (capture_and_process_frame hst (grab cx j))))
                \<le> elapsed dur (snd (iteration hst cx j)))
     \<and> (\<forall>j. \<exists>f. snd (iteration hst cx j) = [Grab]
              \<or> snd (iteration hst cx j) = [Grab, Send_raised]
              \<or> snd (iteration hst cx j) = [Grab, Send f, Sleep_raised]
              \<or> snd (iteration hst cx j) = [Grab, Send f, Sleep (1 / of_nat TARGET_FPS)])"
proof -
  have all: "\<forall>j<n. fst (iteration hst cx (0 + j)) = None"
    using assms(1) by simp
  have events: "turns hst cx 0 n =
           concat (map (\<lambda>j. [Grab, Send (projr (capture_and_process_frame hst (grab cx j))),
                              Sleep (1 / of_nat TARGET_FPS)]) [0..<n])"
    using complete_turns_events [OF all] by simp
  have loop: "stream_loop hst cx 0 acc = stream_loop hst cx n (acc @ turns hst cx 0 n)"
    using stream_loop_turns [OF all, of acc] by simp
  have interval: "(1 / of_nat TARGET_FPS :: rat) = 1 / 20"
    by (simp add: TARGET_FPS_def)
  have sent: "length (frames_sent (turns hst cx 0 n)) = n"
    using frames_sent_complete_turns [OF all] by simp
  have rate: "of_nat n * (1 / of_nat TARGET_FPS) \<le> elapsed dur (turns hst cx 0 n)"
    by (rule elapsed_complete_turns [OF assms(2) all])
  have each: "\<forall>j<n. 1 / of_nat TARGET_FPS + dur Grab
                  + dur (Send (projr (capture_and_process_frame hst (grab cx j))))
                \<le> elapsed dur (snd (iteration hst cx j))"
    using assms(1) elapsed_complete_turn [OF assms(2)] by blast
  have order: "\<forall>j. \<exists>f. snd (iteration hst cx j) = [Grab]
              \<or> snd (iteration hst cx j) = [Grab, Send_raised]
              \<or> snd (iteration hst cx j) = [Grab, Send f, Sleep_raised]
              \<or> snd (iteration hst cx j) = [Grab, Send f, Sleep (1 / of_nat TARGET_FPS)]"
    using iteration_order by blast
  from events loop interval sent rate each order show ?thesis
    by (intro conjI)
qed

text \<open>Two completed turns on the clock where only sleeping takes time: a tenth of a second.\<close>

theorem turn_order_and_rate_witness:
  "timing sleep_only
     \<and> length (frames_sent (turns test_host (capture_fails_at 2) 0 2)) = 2
     \<and> (1 / 10 :: rat) \<le> elapsed sleep_only (turns test_host (capture_fails_at 2) 0 2)"
proof -
  have a: "\<forall>j<2. fst (iteration test_host (capture_fails_at 2) j) = None"
    by (auto intro!: red_turn_completes simp: capture_fails_at_def)
  have b: "timing sleep_only"
    by (rule timing_sleep_only)
  from turn_order_and_rate [OF a b, of "[]"]
  have "length (frames_sent (turns test_host (capture_fails_at 2) 0 2)) = 2"
    and "of_nat 2 * (1 / of_nat TARGET_FPS) \<le> elapsed sleep_only (turns test_host (capture_fails_at 2) 0 2)"
    by blast+
  with b show ?thesis
    by (simp add: TARGET_FPS_def)
qed

text \<open>
  Claim C9 says that every exception raised inside the loop, of any type, is caught in the
  handler. \<^verbatim>\<open>KeyboardInterrupt\<close> is not an \<^verbatim>\<open>Exception\<close>: raised during the first
  capture it passes both \<^verbatim>\<open>except\<close> clauses and leaves the handler, after
  \<^verbatim>\<open>finally\<close> and the closing of the grabber.
\<close>

theorem interrupt_leaves_handler:
  "handler test_host interrupted =
     Some \<lparr>trace = [Print_connected, Mss_enter, Grab, Print_closed, Mss_exit],
           raised = Some KeyboardInterrupt\<rparr>"
proof -
  have a: "mss_open interrupted = None"
    by (simp add: interrupted_def)
  have b: "\<forall>j<0. fst (iteration test_host interrupted j) = None"
    by simp
  have it: "iteration test_host interrupted 0 = (Some KeyboardInterrupt, [Grab])"
    by (simp add: iteration_def capture_and_process_frame_def interrupted_def)
  then have c: "fst (iteration test_host interrupted 0) = Some KeyboardInterrupt"
    by simp
  show ?thesis
    using handler_first_failure [OF a b c] by (simp add: it turns_0)
qed

text \<open>
  Claim C9, amended. In a session whose grabber opened: an exception raised in turn \<open>n\<close>
  by the capture, the transform, the send or the sleep ends the loop; it leaves the
  handler exactly when it is not an instance of \<^verbatim>\<open>Exception\<close>. \<^verbatim>\<open>ConnectionClosed\<close>
  takes the first clause, every other \<^verbatim>\<open>Exception\<close> the second, whatever raised it:
  a failing grab and a failing transform leave the same trace. And however the handler
  returns, it returns after a first failing turn and with the grabber closed last.
\<close>

theorem handler_catches_Exception:
  assumes "mss_open cx = None"
  shows "((\<forall>j<n. fst (iteration hst cx j) = None) \<and> fst (iteration hst cx n) = Some e \<longrightarrow>
            (\<exists>s. handler hst cx = Some s
               \<and> raised s = (if is_Exception e then None else Some e)
               \<and> trace s = [Print_connected, Mss_enter] @ turns hst cx 0 n @ snd (iteration hst cx n)
                    @ (if e = ConnectionClosed then [Print_disconnected, Print_closed, Mss_exit]
                       else if is_Exception e then [Print_unexpected, Print_closed, Mss_exit]
                       else [Print_closed, Mss_exit])
               \<and> released (trace s)))
     \<and> ((\<forall>j<n. fst (iteration hst cx j) = None)
          \<and> capture_and_process_frame hst (grab cx n) = Inl (Exception c) \<longrightarrow>
            (\<exists>s. handler hst cx = Some s \<and> raised s = None
               \<and> trace s = [Print_connected, Mss_enter] @ turns hst cx 0 n
                    @ [Grab, Print_unexpected, Print_closed, Mss_exit]))
     \<and> (handler hst cx = Some s \<longrightarrow>
            released (trace s)
          \<and> (\<exists>m x. (\<forall>j<m. fst (iteration hst cx j) = None) \<and> fst (iteration hst cx m) = Some x
                 \<and> raised s = (if is_Exception x then None else Some x)))"
proof -
  have caught: "\<exists>s. handler hst cx = Some s
               \<and> raised s = (if is_Exception e then None else Some e)
               \<and> trace s = [Print_connected, Mss_enter] @ turns hst cx 0 n @ snd (iteration hst cx n)
                    @ (if e = ConnectionClosed then [Print_disconnected, Print_closed, Mss_exit]
                       else if is_Exception e then [Print_unexpected, Print_closed, Mss_exit]
                       else [Print_closed, Mss_exit])
               \<and> released (trace s)"
    if "(\<forall>j<n. fst (iteration hst cx j) = None) \<and> fst (iteration hst cx n) = Some e"
  proof -
    from that have a: "\<forall>j<n. fst (iteration hst cx j) = None"
      and b: "fst (iteration hst cx n) = Some e" by blast+
    from session_summary [OF assms a b] show ?thesis by blast
  qed
  have uniform: "\<exists>s. handler hst cx = Some s \<and> raised s = None
               \<and> trace s = [Print_connected, Mss_enter] @ turns hst cx 0 n
                    @ [Grab, Print_unexpected, Print_closed, Mss_exit]"
    if "(\<forall>j<n. fst (iteration hst cx j) = None)
          \<and> capture_and_process_frame hst (grab cx n) = Inl (Exception c)"
  proof -
    from that have a: "\<forall>j<n. fst (iteration hst cx j) = None" by blast
    from that have it: "iteration hst cx n = (Some (Exception c), [Grab])"
      by (simp add: iteration_capture_raises)
    then have b: "fst (iteration hst cx n) = Some (Exception c)" by simp
    show ?thesis
      using handler_first_failure [OF assms a b] by (simp add: it)
  qed
  have every_exit: "released (trace s)
          \<and> (\<exists>m x. (\<forall>j<m. fst (iteration hst cx j) = None) \<and> fst (iteration hst cx m) = Some x
                 \<and> raised s = (if is_Exception x then None else Some x))"
    if ret: "handler hst cx = Some s"
  proof -
    from handler_SomeD [OF assms ret] obtain m x
      where a: "\<forall>j<m. fst (iteration hst cx j) = None" and b: "fst (iteration hst cx m) = Some x"
      by blast
    from session_summary [OF assms a b] ret show ?thesis
      using a b by auto
  qed
  show ?thesis
  proof (intro conjI impI)
    assume "(\<forall>j<n. fst (iteration hst cx j) = None) \<and> fst (iteration hst cx n) = Some e"
    then show "\<exists>s. handler hst cx = Some s
               \<and> raised s = (if is_Exception e then None else Some e)
               \<and> trace s = [Print_connected, Mss_enter] @ turns hst cx 0 n @ snd (iteration hst cx n)
                    @ (if e = ConnectionClosed then [Print_disconnected, Print_closed, Mss_exit]
                       else if is_Exception e then [Print_unexpected, Print_closed, Mss_exit]
                       else [Print_closed, Mss_exit])
               \<and> released (trace s)"
      by (rule caught)
  next
    assume "(\<forall>j<n. fst (iteration hst cx j) = None)
          \<and> capture_and_process_frame hst (grab cx n) = Inl (Exception c)"
    then show "\<exists>s. handler hst cx = Some s \<and> raised s = None
               \<and> trace s = [Print_connected, Mss_enter] @ turns hst cx 0 n
                    @ [Grab, Print_unexpected, Print_closed, Mss_exit]"
      by (rule uniform)
  next
    assume "handler hst cx = Some s"
    then show "released (trace s)" using every_exit by blast
  next
    assume "handler hst cx = Some s"
    then show "\<exists>m x. (\<forall>j<m. fst (iteration hst cx j) = None) \<and> fst (iteration hst cx m) = Some x
                 \<and> raised s = (if is_Exception x then None else Some x)"
      using every_exit by blast
  qed
qed

text \<open>A grabber error in the second turn is caught; an interrupt in the first is not; the
  grabber is closed in both sessions.\<close>

theorem handler_catches_Exception_witness:
  "(\<exists>s. handler test_host (capture_fails_at 1) = Some s \<and> raised s = None \<and> released (trace s))
     \<and> (\<exists>s. handler test_host interrupted = Some s \<and> raised s = Some KeyboardInterrupt
            \<and> released (trace s))"
proof -
  have a: "mss_open (capture_fails_at 1) = None" "mss_open interrupted = None"
    by (simp_all add: capture_fails_at_def interrupted_def)
  have b1: "\<forall>j<1. fst (iteration test_host (capture_fails_at 1) j) = None"
    by (auto intro!: red_turn_completes simp: capture_fails_at_def)
  have b2: "fst (iteration test_host (capture_fails_at 1) 1) = Some (Exception ''ScreenShotError'')"
    by (simp add: capture_fails_at_def iteration_def capture_and_process_frame_def)
  note b = conjI [OF b1 b2]
  have c: "(\<forall>j<0. fst (iteration test_host interrupted j) = None)
      \<and> fst (iteration test_host interrupted 0) = Some KeyboardInterrupt"
    by (simp add: interrupted_def iteration_def capture_and_process_frame_def)
  from handler_catches_Exception [OF a(1), of 1 test_host "Exception ''ScreenShotError''",
      THEN conjunct1, THEN mp, OF b]
  obtain s1 where s1: "handler test_host (capture_fails_at 1) = Some s1"
    "raised s1 = (if is_Exception (Exception ''ScreenShotError'') then None
                  else Some (Exception ''ScreenShotError''))"
    "released (trace s1)"
    by blast
  from handler_catches_Exception [OF a(2), of 0 test_host KeyboardInterrupt,
      THEN conjunct1, THEN mp, OF c]
  obtain s2 where s2: "handler test_host interrupted = Some s2"
    "raised s2 = (if is_Exception KeyboardInterrupt then None else Some KeyboardInterrupt)"
    "released (trace s2)"
    by blast
  have "handler test_host (capture_fails_at 1) = Some s1 \<and> raised s1 = None \<and> released (trace s1)"
    using s1 by simp
  moreover have "handler test_host interrupted = Some s2 \<and> raised s2 = Some KeyboardInterrupt
      \<and> released (trace s2)"
    using s2 by simp
  ultimately show ?thesis by blast
qed

end
